theory Spec2Isabelle
  imports Main "HOL-Library.Log_Nat" "HOL-Library.Multiset"
begin

unbundle bit_operations_syntax

section \<open>Machine numbers of the Go source\<close>

subsection \<open>float64\<close>

text \<open>
  A finite \<open>float64\<close> is modelled by the rational number it denotes. Every arithmetic
  operation of the source yields the exact result rounded to 53 significant bits, ties to
  even (\<open>fl\<close>). The exponent is left unbounded: every magnitude the library computes lies
  between \<open>2 powi -60\<close> and \<open>2 powi 70\<close> (or is zero), far inside the normal range of the
  format, so neither overflow nor gradual underflow can take place. Each operation is
  rounded on its own, as on amd64, where Go does not fuse a multiplication with an
  addition.

  \<open>ilog2 x\<close> is the binary exponent of a positive \<open>x\<close>, so that
  \<open>2 powi ilog2 x \<le> x < 2 powi (ilog2 x + 1)\<close>; \<open>rne\<close> rounds to the nearest
  integer, ties to even.
\<close>

definition ilog2 :: "rat \<Rightarrow> int" where
  "ilog2 x = (if 1 \<le> x then bitlen \<lfloor>x\<rfloor> - 1 else - bitlen (\<lceil>1 / x\<rceil> - 1))"

definition rne :: "rat \<Rightarrow> int" where
  "rne x = (let f = \<lfloor>x\<rfloor>; r = x - of_int f
            in if r < 1 / 2 then f
               else if 1 / 2 < r then f + 1
               else if even f then f else f + 1)"

definition fl :: "rat \<Rightarrow> rat" where
  "fl x = (if x = 0 then 0
           else let e = ilog2 \<bar>x\<bar> - 52 in of_int (rne (x / 2 powi e)) * 2 powi e)"

definition fadd :: "rat \<Rightarrow> rat \<Rightarrow> rat" where
  "fadd a b = fl (a + b)"

definition fsub :: "rat \<Rightarrow> rat \<Rightarrow> rat" where
  "fsub a b = fl (a - b)"

definition fmul :: "rat \<Rightarrow> rat \<Rightarrow> rat" where
  "fmul a b = fl (a * b)"

definition fdiv :: "rat \<Rightarrow> rat \<Rightarrow> rat" where
  "fdiv a b = fl (a / b)"

text \<open>
  The coordinates and distances a caller passes in can be any \<open>float64\<close>, also a NaN or
  an infinity. The source only ever compares such an argument with a finite number, so
  the arguments have the type \<open>float64\<close> below and everything computed from the
  constants of the source is a plain rational. Every comparison with a NaN is false.
\<close>

datatype float64 = NaN | NegInf | Finite rat | PosInf

fun float64_gt :: "float64 \<Rightarrow> float64 \<Rightarrow> bool" where
  "float64_gt NaN _ = False"
| "float64_gt _ NaN = False"
| "float64_gt _ PosInf = False"
| "float64_gt PosInf _ = True"
| "float64_gt NegInf _ = False"
| "float64_gt (Finite a) NegInf = True"
| "float64_gt (Finite a) (Finite b) = (b < a)"

subsection \<open>int64 and conversions\<close>

text \<open>
  Go's \<open>int64\<close> arithmetic wraps around in two's complement. Go's \<open>int\<close> is taken to
  be 64 bits wide (amd64, arm64).
\<close>

definition wrap64 :: "int \<Rightarrow> int" where
  "wrap64 i = (i + 2 ^ 63) mod 2 ^ 64 - 2 ^ 63"

text \<open>\<open>float64(i)\<close> for an integer \<open>i\<close>: the nearest \<open>float64\<close>.\<close>

definition float64_of_int :: "int \<Rightarrow> rat" where
  "float64_of_int i = fl (of_int i)"

definition trunc :: "rat \<Rightarrow> int" where
  "trunc f = (if 0 \<le> f then \<lfloor>f\<rfloor> else \<lceil>f\<rceil>)"

text \<open>
  \<open>int(f)\<close> for a \<open>float64\<close>: the fraction is discarded. Where the result does not fit
  64 bits Go leaves it to the implementation; amd64 gives \<open>- 2 ^ 63\<close>. The library
  reaches this case only in \<open>getBit\<close> at position 0, for a hash of at least
  \<open>2 ^ 63 - 512\<close>, which \<open>float64\<close> rounds up to \<open>2 ^ 63\<close>.
\<close>

definition int_of_float64 :: "rat \<Rightarrow> int" where
  "int_of_float64 f =
     (if - (2 ^ 63) \<le> trunc f \<and> trunc f < 2 ^ 63 then trunc f else - (2 ^ 63))"

subsection \<open>Package math\<close>

text \<open>
  \<open>math.Pow\<close> is called with an integral exponent only: as \<open>Pow(2, position)\<close> with
  \<open>0 \<le> position < 52\<close> and as \<open>Pow(10, 0)\<close>. There the exact power is a \<open>float64\<close>
  and Go returns it. \<open>math.Mod\<close> is the remainder of the truncated division and is
  exact; the source divides by 2 only. \<open>math.Modf\<close> splits a number into its integral
  and fractional parts, both with the sign of the number. The rationals have no negative
  zero, so \<open>math.Copysign\<close> takes every zero to be positive.
\<close>

definition math_Pow :: "rat \<Rightarrow> rat \<Rightarrow> rat" where
  "math_Pow x y = fl (x powi \<lfloor>y\<rfloor>)"

definition math_Mod :: "rat \<Rightarrow> rat \<Rightarrow> rat" where
  "math_Mod x y = x - y * of_int (trunc (x / y))"

definition math_Modf :: "rat \<Rightarrow> rat \<times> rat" where
  "math_Modf f = (of_int (trunc f), f - of_int (trunc f))"

definition math_Copysign :: "rat \<Rightarrow> rat \<Rightarrow> rat" where
  "math_Copysign x y = (if y < 0 then - \<bar>x\<bar> else \<bar>x\<bar>)"

definition math_Ceil :: "rat \<Rightarrow> rat" where
  "math_Ceil x = of_int \<lceil>x\<rceil>"

definition math_Floor :: "rat \<Rightarrow> rat" where
  "math_Floor x = of_int \<lfloor>x\<rfloor>"

section \<open>The geohash library\<close>

subsection \<open>What the validator accepts\<close>

definition MaxBitDepth :: int where
  "MaxBitDepth = 52"

text \<open>
  \<open>validateBitDepth\<close> panics with one of two messages, each of which reports the
  rejected bit depth. Both are the specification's \<open>InvalidBitDepth\<close> condition; a
  panic is the left summand of the result.
\<close>

datatype panic = BitDepthOutOfRange int | BitDepthNotEven int

definition validateBitDepth :: "int \<Rightarrow> panic + unit" where
  "validateBitDepth bitDepth =
     (if bitDepth > MaxBitDepth \<or> bitDepth \<le> 0 then Inl (BitDepthOutOfRange bitDepth)
      else if math_Mod (float64_of_int bitDepth) (float64_of_int 2) \<noteq> 0
        then Inl (BitDepthNotEven bitDepth)
      else Inr ())"

subsection \<open>EncodeInt\<close>

text \<open>
  The variables of the loop, in the order of their declaration:
  \<open>(bitsTotal, maxLat, minLat, maxLng, minLng, geohash)\<close>. \<open>mid\<close> is assigned anew
  before each use. \<open>encode_step\<close> is the body of the loop and \<open>encode_loop\<close> the loop,
  which runs while \<open>bitsTotal < bitDepth\<close> and returns the variables as it leaves them. \<open>bitsTotal\<close> stays below \<open>bitDepth\<close>, an \<open>int64\<close>, until it is
  incremented, so the increment cannot overflow.
\<close>

type_synonym encode_state = "int \<times> rat \<times> rat \<times> rat \<times> rat \<times> int"

fun encode_step :: "float64 \<Rightarrow> float64 \<Rightarrow> encode_state \<Rightarrow> encode_state" where
  "encode_step latitude longitude (bitsTotal, maxLat, minLat, maxLng, minLng, geohash) =
     (let geohash = wrap64 (geohash * 2)
      in if bitsTotal mod 2 = 0 then
           (let mid = fdiv (fadd maxLng minLng) 2
            in if float64_gt longitude (Finite mid)
               then (bitsTotal + 1, maxLat, minLat, maxLng, mid, wrap64 (geohash + 1))
               else (bitsTotal + 1, maxLat, minLat, mid, minLng, geohash))
         else
           (let mid = fdiv (fadd maxLat minLat) 2
            in if float64_gt latitude (Finite mid)
               then (bitsTotal + 1, maxLat, mid, maxLng, minLng, wrap64 (geohash + 1))
               else (bitsTotal + 1, mid, minLat, maxLng, minLng, geohash)))"

fun bitsTotal_of :: "encode_state \<Rightarrow> int" where
  "bitsTotal_of (bitsTotal, maxLat, minLat, maxLng, minLng, geohash) = bitsTotal"

fun geohash_of :: "encode_state \<Rightarrow> int" where
  "geohash_of (bitsTotal, maxLat, minLat, maxLng, minLng, geohash) = geohash"

function encode_loop :: "float64 \<Rightarrow> float64 \<Rightarrow> int \<Rightarrow> encode_state \<Rightarrow> encode_state" where
  "encode_loop latitude longitude bitDepth s =
     (if bitsTotal_of s < bitDepth
      then encode_loop latitude longitude bitDepth (encode_step latitude longitude s)
      else s)"
  by pat_completeness auto
termination
  by (relation "measure (\<lambda>(latitude, longitude, bitDepth, s). nat (bitDepth - bitsTotal_of s))")
    (auto simp: Let_def)

definition encode_init :: encode_state where
  "encode_init = (0, 90, - 90, 180, - 180, 0)"

definition EncodeInt :: "float64 \<Rightarrow> float64 \<Rightarrow> int \<Rightarrow> panic + int" where
  "EncodeInt latitude longitude bitDepth =
     (case validateBitDepth bitDepth of
        Inl e \<Rightarrow> Inl e
      | Inr _ \<Rightarrow> Inr (geohash_of (encode_loop latitude longitude bitDepth encode_init)))"

subsection \<open>getBit, DecodeBboxInt and DecodeInt\<close>

definition getBit :: "int \<Rightarrow> int \<Rightarrow> int" where
  "getBit geohash position =
     int_of_float64 (fdiv (float64_of_int geohash) (math_Pow 2 (float64_of_int position)))
       AND 1"

text \<open>A box is the tuple \<open>(minLat, minLng, maxLat, maxLng)\<close> that the source returns.\<close>

type_synonym bbox = "rat \<times> rat \<times> rat \<times> rat"

fun decode_step :: "int \<Rightarrow> int \<Rightarrow> int \<Rightarrow> bbox \<Rightarrow> bbox" where
  "decode_step geohash steps thisStep (minLat, minLng, maxLat, maxLng) =
     (let lonBit = getBit geohash (((steps - thisStep) * 2) - 1);
          latBit = getBit geohash (((steps - thisStep) * 2) - 2);
          (minLat, maxLat) =
            (if latBit = 0 then (minLat, fdiv (fadd maxLat minLat) 2)
             else (fdiv (fadd maxLat minLat) 2, maxLat));
          (minLng, maxLng) =
            (if lonBit = 0 then (minLng, fdiv (fadd maxLng minLng) 2)
             else (fdiv (fadd maxLng minLng) 2, maxLng))
      in (minLat, minLng, maxLat, maxLng))"

function decode_loop :: "int \<Rightarrow> int \<Rightarrow> int \<Rightarrow> bbox \<Rightarrow> bbox" where
  "decode_loop geohash steps thisStep box =
     (if thisStep < steps
      then decode_loop geohash steps (thisStep + 1) (decode_step geohash steps thisStep box)
      else box)"
  by pat_completeness auto
termination
  by (relation "measure (\<lambda>(geohash, steps, thisStep, box). nat (steps - thisStep))") auto

definition decode_init :: bbox where
  "decode_init = (- 90, - 180, 90, 180)"

text \<open>\<open>bitDepth / 2\<close> divides a positive number, where Go's division is \<open>div\<close>.\<close>

definition DecodeBboxInt :: "int \<Rightarrow> int \<Rightarrow> panic + bbox" where
  "DecodeBboxInt geohash bitDepth =
     (case validateBitDepth bitDepth of
        Inl e \<Rightarrow> Inl e
      | Inr _ \<Rightarrow> Inr (decode_loop geohash (bitDepth div 2) 0 decode_init))"

text \<open>The result of \<open>DecodeInt\<close> is the tuple \<open>(lat, lng, latErr, lngErr)\<close>.\<close>

definition DecodeInt :: "int \<Rightarrow> int \<Rightarrow> panic + rat \<times> rat \<times> rat \<times> rat" where
  "DecodeInt geohash bitDepth =
     (case validateBitDepth bitDepth of
        Inl e \<Rightarrow> Inl e
      | Inr _ \<Rightarrow>
          (case DecodeBboxInt geohash bitDepth of
             Inl e \<Rightarrow> Inl e
           | Inr (minLat, minLng, maxLat, maxLng) \<Rightarrow>
               (let lat = fdiv (fadd minLat maxLat) 2;
                    lng = fdiv (fadd minLng maxLng) 2;
                    latErr = fsub maxLat lat;
                    lngErr = fsub maxLng lng
                in Inr (lat, lng, latErr, lngErr))))"

subsection \<open>Neighbours\<close>

text \<open>A \<open>bearing{x, y}\<close> of the source is \<open>Bearing x y\<close>; both fields are Go \<open>int\<close>s.\<close>

datatype bearing = Bearing int int

definition North :: bearing where "North = Bearing 1 0"
definition NorthEast :: bearing where "NorthEast = Bearing 1 1"
definition East :: bearing where "East = Bearing 0 1"
definition SouthEast :: bearing where "SouthEast = Bearing (- 1) 1"
definition South :: bearing where "South = Bearing (- 1) 0"
definition SouthWest :: bearing where "SouthWest = Bearing (- 1) (- 1)"
definition West :: bearing where "West = Bearing 0 (- 1)"
definition NorthWest :: bearing where "NorthWest = Bearing 1 (- 1)"

fun NeighborInt :: "int \<Rightarrow> bearing \<Rightarrow> int \<Rightarrow> panic + int" where
  "NeighborInt geohash (Bearing x y) bitDepth =
     (case validateBitDepth bitDepth of
        Inl e \<Rightarrow> Inl e
      | Inr _ \<Rightarrow>
          (case DecodeInt geohash bitDepth of
             Inl e \<Rightarrow> Inl e
           | Inr (lat, lng, latErr, lngErr) \<Rightarrow>
               (let neighborLat = fadd lat (fmul (fmul (float64_of_int x) latErr) 2);
                    neighborLng = fadd lng (fmul (fmul (float64_of_int y) lngErr) 2)
                in EncodeInt (Finite neighborLat) (Finite neighborLng) bitDepth)))"

text \<open>
  \<open>output = append(output, v)\<close>, where computing \<open>v\<close> may panic: a panic, once
  raised, is the result of the whole function.
\<close>

fun append_result :: "panic + int list \<Rightarrow> panic + int \<Rightarrow> panic + int list" where
  "append_result (Inl e) _ = Inl e"
| "append_result (Inr output) (Inl e) = Inl e"
| "append_result (Inr output) (Inr v) = Inr (output @ [v])"

definition NeighborsInt :: "int \<Rightarrow> int \<Rightarrow> panic + int list" where
  "NeighborsInt geohash bitDepth =
     (case validateBitDepth bitDepth of
        Inl e \<Rightarrow> Inl e
      | Inr _ \<Rightarrow>
          (let output = Inr [];
               output = append_result output (NeighborInt geohash North bitDepth);
               output = append_result output (NeighborInt geohash NorthEast bitDepth);
               output = append_result output (NeighborInt geohash East bitDepth);
               output = append_result output (NeighborInt geohash SouthEast bitDepth);
               output = append_result output (NeighborInt geohash South bitDepth);
               output = append_result output (NeighborInt geohash SouthWest bitDepth);
               output = append_result output (NeighborInt geohash West bitDepth);
               output = append_result output (NeighborInt geohash NorthWest bitDepth);
               output = append_result output (Inr geohash)
           in output))"

subsection \<open>BboxesInt\<close>

text \<open>
  The source's \<open>div\<close>, \<open>_div\<close>, \<open>_roundOn\<close> and \<open>round\<close> are \<open>frac\<close>,
  \<open>frac'\<close>, \<open>roundOn'\<close> and \<open>rounded\<close> here.
\<close>

definition round_go :: "rat \<Rightarrow> rat \<Rightarrow> int \<Rightarrow> rat" where
  "round_go val roundOn places =
     (let pow = math_Pow 10 (float64_of_int places);
          digit = fmul pow val;
          (_, frac) = math_Modf digit;
          frac' = math_Copysign frac val;
          roundOn' = math_Copysign roundOn val;
          rounded = (if frac' \<ge> roundOn' then math_Ceil digit else math_Floor digit)
      in fdiv rounded pow)"

text \<open>
  The two nested counting loops run over \<open>[0..int(latStep)]\<close> and
  \<open>[0..int(lngStep)]\<close>, lists that are empty when the bound is negative.
\<close>

definition BboxesInt ::
    "float64 \<Rightarrow> float64 \<Rightarrow> float64 \<Rightarrow> float64 \<Rightarrow> int \<Rightarrow> panic + int list" where
  "BboxesInt minLat minLon maxLat maxLon bitDepth =
     (case validateBitDepth bitDepth of
        Inl e \<Rightarrow> Inl e
      | Inr _ \<Rightarrow>
     (case EncodeInt minLat minLon bitDepth of
        Inl e \<Rightarrow> Inl e
      | Inr hashSouthWest \<Rightarrow>
     (case EncodeInt maxLat maxLon bitDepth of
        Inl e \<Rightarrow> Inl e
      | Inr hashNorthEast \<Rightarrow>
     (case DecodeInt hashSouthWest bitDepth of
        Inl e \<Rightarrow> Inl e
      | Inr (_, _, latErr, lngErr) \<Rightarrow>
     (let perLat = fmul latErr 2;
          perLng = fmul lngErr 2
      in
     (case DecodeBboxInt hashSouthWest bitDepth of
        Inl e \<Rightarrow> Inl e
      | Inr (swMinLat, _, _, swMaxLng) \<Rightarrow>
     (case DecodeBboxInt hashNorthEast bitDepth of
        Inl e \<Rightarrow> Inl e
      | Inr (neMinLat, _, _, neMaxLng) \<Rightarrow>
     (let latStep = round_go (fdiv (fsub neMinLat swMinLat) perLat) (1 / 2) 0;
          lngStep = round_go (fdiv (fsub neMaxLng swMaxLng) perLng) (1 / 2) 0
      in foldl (\<lambda>output lat.
           foldl (\<lambda>output lng.
             append_result output (NeighborInt hashSouthWest (Bearing lat lng) bitDepth))
             output [0..int_of_float64 lngStep])
           (Inr []) [0..int_of_float64 latStep]))))))))"

subsection \<open>FindBitDepth and Shift\<close>

text \<open>
  The precision table is a Go map from bit depth to distance; the decimal literals denote
  the nearest \<open>float64\<close>. A \<open>range\<close> over a map visits every entry once, in an order
  that Go leaves open and changes from one loop to the next. \<open>FindBitDepth\<close> therefore
  takes the order of the visit as its first argument: any list with the entries of
  \<open>bitsToDistanceInMeters\<close>.
\<close>

definition bitsToDistanceInMeters :: "(int \<times> rat) list" where
  "bitsToDistanceInMeters =
     [(52, fl (5971 / 10000)),
      (50, fl (11943 / 10000)),
      (48, fl (23889 / 10000)),
      (46, fl (47774 / 10000)),
      (44, fl (95547 / 10000)),
      (42, fl (191095 / 10000)),
      (40, fl (382189 / 10000)),
      (38, fl (764378 / 10000)),
      (36, fl (1528757 / 10000)),
      (34, fl (305751 / 1000)),
      (32, fl (6115028 / 10000)),
      (30, fl (12230056 / 10000)),
      (28, fl (24460112 / 10000)),
      (26, fl (48920224 / 10000)),
      (24, fl (97840449 / 10000)),
      (22, fl (195680898 / 10000)),
      (20, fl (391361797 / 10000)),
      (18, fl (7827235938 / 100000)),
      (16, fl (1565447188 / 10000)),
      (14, fl (3130894375 / 10000)),
      (12, fl (626178875 / 1000)),
      (10, fl (125235775 / 100)),
      (8, fl (25047155 / 10)),
      (6, fl 5009431),
      (4, fl 10018863)]"

definition range_order :: "(int \<times> rat) list \<Rightarrow> bool" where
  "range_order entries = (mset entries = mset bitsToDistanceInMeters)"

fun FindBitDepth :: "(int \<times> rat) list \<Rightarrow> float64 \<Rightarrow> int" where
  "FindBitDepth [] distanceMeters = 0"
| "FindBitDepth ((key, value) # entries) distanceMeters =
     (if float64_gt (Finite value) distanceMeters then wrap64 (MaxBitDepth - key)
      else FindBitDepth entries distanceMeters)"

text \<open>
  The second source file keeps the table in a slice of 25 radii, \<open>bitsToRadiusMap\<close>,
  which \<open>range\<close> visits by ascending index \<open>key\<close>; its \<open>FindBitDepth\<close> is
  \<open>FindBitDepth_slice\<close> here, and \<open>find_slice\<close> is the loop from the index \<open>key\<close> on.
\<close>

definition bitsToRadiusMap :: "rat list" where
  "bitsToRadiusMap =
     [fl (5971 / 10000),
      fl (11943 / 10000),
      fl (23889 / 10000),
      fl (47774 / 10000),
      fl (95547 / 10000),
      fl (191095 / 10000),
      fl (382189 / 10000),
      fl (764378 / 10000),
      fl (1528757 / 10000),
      fl (305751 / 1000),
      fl (6115028 / 10000),
      fl (12230056 / 10000),
      fl (24460112 / 10000),
      fl (48920224 / 10000),
      fl (97840449 / 10000),
      fl (195680898 / 10000),
      fl (391361797 / 10000),
      fl (7827235938 / 100000),
      fl (1565447188 / 10000),
      fl (3130894375 / 10000),
      fl (626178875 / 1000),
      fl (125235775 / 100),
      fl (25047155 / 10),
      fl 5009431,
      fl 10018863]"

fun find_slice :: "int \<Rightarrow> rat list \<Rightarrow> float64 \<Rightarrow> int" where
  "find_slice key [] distance = 0"
| "find_slice key (value # values) distance =
     (if float64_gt (Finite value) distance then wrap64 (MaxBitDepth - wrap64 (key * 2))
      else find_slice (key + 1) values distance)"

definition FindBitDepth_slice :: "float64 \<Rightarrow> int" where
  "FindBitDepth_slice distance = find_slice 0 bitsToRadiusMap distance"

text \<open>The shift count \<open>uint64(MaxBitDepth - bitDepth)\<close> lies between 0 and 50.\<close>

definition Shift :: "int \<Rightarrow> int \<Rightarrow> panic + int" where
  "Shift v bitDepth =
     (case validateBitDepth bitDepth of
        Inl e \<Rightarrow> Inl e
      | Inr _ \<Rightarrow> Inr (wrap64 (v * 2 ^ nat (MaxBitDepth - bitDepth))))"

section \<open>Notions used in the proofs\<close>

text \<open>
  After \<open>n\<close> halvings every bound of a box is a multiple of \<open>45 / 2 ^ n\<close> of
  magnitude at most 180 (\<open>grid\<close>), and the box is \<open>180 / 2 ^ n\<close> high and
  \<open>360 / 2 ^ n\<close> wide (\<open>cellbox\<close>).
\<close>

definition grid :: "nat \<Rightarrow> rat \<Rightarrow> bool" where
  "grid n x = (\<exists>k::int. x = of_int k * 45 / 2 ^ n \<and> \<bar>k\<bar> \<le> 4 * 2 ^ n)"

definition cellbox :: "nat \<Rightarrow> bbox \<Rightarrow> bool" where
  "cellbox n box =
     (case box of (minLat, minLng, maxLat, maxLng) \<Rightarrow>
        grid n minLat \<and> grid n minLng \<and> grid n maxLat \<and> grid n maxLng \<and>
        maxLat - minLat = 180 / 2 ^ n \<and> maxLng - minLng = 360 / 2 ^ n)"

text \<open>
  \<open>halve r box\<close> is the quarter of a box that the bit pair \<open>r\<close> selects, and
  \<open>quadrant\<close> is the bit pair that the encoder produces for a point and a box.
  \<open>encoded n g box\<close> is the state of the encoder's loop after \<open>2 * n\<close> iterations
  with the hash \<open>g\<close> and the bounds of \<open>box\<close>. A box \<open>covers\<close> a point within its
  closed bounds; a point is \<open>inside\<close> when it lies above the lower bounds, where the
  encoder's comparison \<open>coordinate > mid\<close> puts it.
\<close>

fun halve :: "int \<Rightarrow> bbox \<Rightarrow> bbox" where
  "halve r (minLat, minLng, maxLat, maxLng) =
     (if r mod 2 = 0 then minLat else (maxLat + minLat) / 2,
      if r div 2 = 0 then minLng else (maxLng + minLng) / 2,
      if r mod 2 = 0 then (maxLat + minLat) / 2 else maxLat,
      if r div 2 = 0 then (maxLng + minLng) / 2 else maxLng)"

fun quadrant :: "float64 \<Rightarrow> float64 \<Rightarrow> bbox \<Rightarrow> int" where
  "quadrant latitude longitude (minLat, minLng, maxLat, maxLng) =
     (if float64_gt longitude (Finite ((maxLng + minLng) / 2)) then 2 else 0) +
     (if float64_gt latitude (Finite ((maxLat + minLat) / 2)) then 1 else 0)"

fun encoded :: "nat \<Rightarrow> int \<Rightarrow> bbox \<Rightarrow> encode_state" where
  "encoded n g (minLat, minLng, maxLat, maxLng) = (2 * int n, maxLat, minLat, maxLng, minLng, g)"

fun covers :: "float64 \<Rightarrow> float64 \<Rightarrow> bbox \<Rightarrow> bool" where
  "covers (Finite la) (Finite lo) (minLat, minLng, maxLat, maxLng) =
     (minLat \<le> la \<and> la \<le> maxLat \<and> minLng \<le> lo \<and> lo \<le> maxLng)"
| "covers _ _ _ = False"

fun inside :: "rat \<Rightarrow> rat \<Rightarrow> bbox \<Rightarrow> bool" where
  "inside la lo (minLat, minLng, maxLat, maxLng) =
     (minLat < la \<and> la \<le> maxLat \<and> minLng < lo \<and> lo \<le> maxLng)"

section \<open>Rounding is exact on the numbers of the library\<close>

lemma rne_of_int: "rne (of_int k) = k"
  by (simp add: rne_def)

lemma bitlen_bounds_rat:
  assumes "0 < n"
  shows "(2::rat) powi (bitlen n - 1) \<le> of_int n" "of_int n < (2::rat) powi (bitlen n)"
proof -
  from bitlen_bounds [OF assms]
  have a: "2 ^ nat (bitlen n - 1) \<le> n" and b: "n < 2 ^ nat (bitlen n)" by simp_all
  have pos: "1 \<le> bitlen n" using assms by (simp add: bitlen_alt_def)
  have "(of_int (2 ^ nat (bitlen n - 1)) :: rat) \<le> of_int n"
    using a by (simp only: of_int_le_iff)
  then show "(2::rat) powi (bitlen n - 1) \<le> of_int n"
    using pos by (simp add: power_int_def)
  have "(of_int n :: rat) < of_int (2 ^ nat (bitlen n))"
    using b by (simp only: of_int_less_iff)
  then show "of_int n < (2::rat) powi (bitlen n)"
    using pos by (simp add: power_int_def)
qed

lemma ilog2_bounds:
  assumes "0 < x"
  shows "2 powi ilog2 x \<le> x" "x < 2 powi (ilog2 x + 1)"
proof -
  have "2 powi ilog2 x \<le> x \<and> x < 2 powi (ilog2 x + 1)"
  proof (cases "1 \<le> x")
    case True
    then have n: "0 < \<lfloor>x\<rfloor>" by linarith
    have e: "ilog2 x = bitlen \<lfloor>x\<rfloor> - 1" using True by (simp add: ilog2_def)
    have "2 powi (bitlen \<lfloor>x\<rfloor> - 1) \<le> (of_int \<lfloor>x\<rfloor> :: rat)"
      by (rule bitlen_bounds_rat [OF n])
    also have "\<dots> \<le> x" by simp
    finally have lo: "2 powi ilog2 x \<le> x" by (simp add: e)
    have "\<lfloor>x\<rfloor> < 2 ^ nat (bitlen \<lfloor>x\<rfloor>)" using bitlen_bounds [OF n] by simp
    then have "\<lfloor>x\<rfloor> + 1 \<le> 2 ^ nat (bitlen \<lfloor>x\<rfloor>)" by simp
    then have "(of_int (\<lfloor>x\<rfloor> + 1) :: rat) \<le> of_int (2 ^ nat (bitlen \<lfloor>x\<rfloor>))"
      by (simp only: of_int_le_iff)
    moreover have "x < of_int (\<lfloor>x\<rfloor> + 1)" by linarith
    ultimately have "x < of_int (2 ^ nat (bitlen \<lfloor>x\<rfloor>))" by linarith
    then have "x < 2 powi (ilog2 x + 1)"
      using bitlen_nonneg [of "\<lfloor>x\<rfloor>"] by (simp add: e power_int_def)
    with lo show ?thesis by simp
  next
    case False
    define y where "y = 1 / x"
    have y1: "1 < y" using False assms by (simp add: y_def)
    define m where "m = \<lceil>y\<rceil> - 1"
    have m: "0 < m" using y1 unfolding m_def by linarith
    have e: "ilog2 x = - bitlen m" using False by (simp add: ilog2_def m_def y_def)
    have my: "of_int m < y" "y \<le> of_int m + 1" unfolding m_def by linarith+
    have "2 powi (bitlen m - 1) \<le> (of_int m :: rat)" by (rule bitlen_bounds_rat [OF m])
    with my have lo: "2 powi (bitlen m - 1) < y" by linarith
    have "m < 2 ^ nat (bitlen m)" using bitlen_bounds [OF m] by simp
    then have "m + 1 \<le> 2 ^ nat (bitlen m)" by simp
    then have "(of_int (m + 1) :: rat) \<le> of_int (2 ^ nat (bitlen m))"
      by (simp only: of_int_le_iff)
    then have "(of_int m + 1 :: rat) \<le> 2 powi bitlen m"
      using bitlen_nonneg [of m] by (simp add: power_int_def)
    with my have hi: "y \<le> 2 powi bitlen m" by linarith
    have x: "x = 1 / y" by (simp add: y_def)
    have "1 / (2 powi bitlen m) \<le> 1 / y"
      using hi y1 by (intro divide_left_mono) auto
    then have A: "2 powi (- bitlen m) \<le> x"
      by (simp add: x power_int_minus_divide)
    have p2: "(0::rat) < 2 powi (bitlen m - 1)" by simp
    have "1 / y < 1 / (2 powi (bitlen m - 1))"
      using lo y1 p2 by (intro divide_strict_left_mono mult_pos_pos) auto
    then have B: "x < 2 powi (- bitlen m + 1)"
      by (simp add: x power_int_minus_divide [symmetric])
    from A B show ?thesis by (simp add: e)
  qed
  then show "2 powi ilog2 x \<le> x" "x < 2 powi (ilog2 x + 1)" by simp_all
qed

lemma fl_exact:
  assumes "\<bar>m\<bar> < 2 ^ 53"
  shows "fl (of_int m * 2 powi k) = of_int m * 2 powi k"
proof (cases "m = 0")
  case True
  then show ?thesis by (simp add: fl_def)
next
  case False
  define x :: rat where "x = of_int m * 2 powi k"
  have x0: "x \<noteq> 0" using False by (simp add: x_def)
  then have ax: "0 < \<bar>x\<bar>" by simp
  define e where "e = ilog2 \<bar>x\<bar> - 52"
  have "(of_int \<bar>m\<bar> :: rat) < of_int (2 ^ 53)" using assms by (simp only: of_int_less_iff)
  then have "(of_int \<bar>m\<bar> :: rat) * 2 powi k < 2 ^ 53 * 2 powi k"
    by simp
  then have "\<bar>x\<bar> < 2 powi (53 + k)"
    by (simp add: x_def abs_mult power_int_add)
  with ilog2_bounds(1) [OF ax] have "(2::rat) powi ilog2 \<bar>x\<bar> < 2 powi (53 + k)" by linarith
  then have "ilog2 \<bar>x\<bar> < 53 + k"
    using power_int_increasing [of "53 + k" "ilog2 \<bar>x\<bar>" "2::rat"]
    by (cases "ilog2 \<bar>x\<bar> < 53 + k") auto
  then have ek: "e \<le> k" by (simp add: e_def)
  have "x / 2 powi e = of_int m * 2 powi (k - e)"
    by (simp add: x_def power_int_diff)
  also have "\<dots> = of_int (m * 2 ^ nat (k - e))"
    using ek by (simp add: power_int_def)
  finally have q: "x / 2 powi e = of_int (m * 2 ^ nat (k - e))" .
  have "fl x = of_int (rne (x / 2 powi e)) * 2 powi e"
    using x0 by (simp add: fl_def e_def Let_def)
  also have "\<dots> = (x / 2 powi e) * 2 powi e"
    by (simp only: q rne_of_int)
  also have "\<dots> = x" by simp
  finally show ?thesis by (simp add: x_def)
qed

lemma fl_of_int: "\<bar>m\<bar> < 2 ^ 53 \<Longrightarrow> fl (of_int m) = of_int m"
  using fl_exact [of m 0] by simp

lemma fl_pow2: "fl (2 powi k) = 2 powi k"
  using fl_exact [of 1 k] by simp

lemma fl_of_int_div_pow2: "\<bar>m\<bar> < 2 ^ 53 \<Longrightarrow> fl (of_int m / 2 ^ n) = of_int m / 2 ^ n"
  using fl_exact [of m "- int n"] by (simp add: power_int_minus_divide)

lemma pow2_le_27: "n \<le> 27 \<Longrightarrow> (2::int) ^ n \<le> 2 ^ 27"
  by (rule power_increasing) simp_all

lemma grid_fl:
  assumes "grid n x" "n \<le> 27"
  shows "fl x = x"
proof -
  from assms obtain k :: int where x: "x = of_int k * 45 / 2 ^ n" and k: "\<bar>k\<bar> \<le> 4 * 2 ^ n"
    by (auto simp: grid_def)
  from k pow2_le_27 [OF assms(2)] have "\<bar>k * 45\<bar> < 2 ^ 53" by (simp add: abs_mult)
  from fl_of_int_div_pow2 [OF this, of n] show ?thesis by (simp add: x)
qed

lemma grid_Suc: "grid n x \<Longrightarrow> grid (Suc n) x"
  unfolding grid_def
proof (elim exE conjE)
  fix k :: int
  assume "x = of_int k * 45 / 2 ^ n" "\<bar>k\<bar> \<le> 4 * 2 ^ n"
  then have "x = of_int (2 * k) * 45 / 2 ^ Suc n \<and> \<bar>2 * k\<bar> \<le> 4 * 2 ^ Suc n"
    by (simp add: abs_mult)
  then show "\<exists>k::int. x = of_int k * 45 / 2 ^ Suc n \<and> \<bar>k\<bar> \<le> 4 * 2 ^ Suc n" by blast
qed

lemma grid_mid:
  assumes "grid n a" "grid n b" "n \<le> 26"
  shows "fdiv (fadd a b) 2 = (a + b) / 2" "grid (Suc n) ((a + b) / 2)"
proof -
  from assms obtain k :: int where a: "a = of_int k * 45 / 2 ^ n" and k: "\<bar>k\<bar> \<le> 4 * 2 ^ n"
    by (auto simp: grid_def)
  from assms obtain l :: int where b: "b = of_int l * 45 / 2 ^ n" and l: "\<bar>l\<bar> \<le> 4 * 2 ^ n"
    by (auto simp: grid_def)
  have p: "(2::int) ^ n \<le> 2 ^ 27" using assms(3) by (intro pow2_le_27) simp
  have s: "a + b = of_int ((k + l) * 45) / 2 ^ n"
    by (simp add: a b add_divide_distrib distrib_right)
  have h: "(a + b) / 2 = of_int ((k + l) * 45) / 2 ^ Suc n"
    by (simp add: s)
  from k l p have m: "\<bar>(k + l) * 45\<bar> < 2 ^ 53" by (simp add: abs_mult)
  have "fadd a b = a + b"
    unfolding fadd_def s by (rule fl_of_int_div_pow2 [OF m])
  moreover have "fl ((a + b) / 2) = (a + b) / 2"
    unfolding h by (rule fl_of_int_div_pow2 [OF m])
  ultimately show "fdiv (fadd a b) 2 = (a + b) / 2" by (simp add: fdiv_def)
  have h': "(a + b) / 2 = of_int (k + l) * 45 / 2 ^ Suc n"
    by (simp add: a b add_divide_distrib distrib_right)
  from k l have "\<bar>k + l\<bar> \<le> 4 * 2 ^ Suc n" by simp
  with h' show "grid (Suc n) ((a + b) / 2)" unfolding grid_def
    by (intro exI [of _ "k + l"] conjI)
qed

lemma grid_init: "grid 0 90" "grid 0 (- 90)" "grid 0 180" "grid 0 (- 180)"
proof -
  show "grid 0 90" unfolding grid_def by (intro exI [of _ 2]) simp
  show "grid 0 (- 90)" unfolding grid_def by (intro exI [of _ "- 2"]) simp
  show "grid 0 180" unfolding grid_def by (intro exI [of _ 4]) simp
  show "grid 0 (- 180)" unfolding grid_def by (intro exI [of _ "- 4"]) simp
qed

lemma cellbox_init: "cellbox 0 decode_init"
  by (simp add: cellbox_def decode_init_def grid_init)

section \<open>Bit depth validation\<close>

lemma trunc_nonneg: "0 \<le> f \<Longrightarrow> trunc f = \<lfloor>f\<rfloor>"
  by (simp add: trunc_def)

lemma float64_of_int_exact: "\<bar>i\<bar> < 2 ^ 53 \<Longrightarrow> float64_of_int i = of_int i"
  by (simp add: float64_of_int_def fl_of_int)

lemma math_Mod_2:
  assumes "0 \<le> d"
  shows "math_Mod (of_int d) 2 = of_int (d mod 2)"
proof -
  have "\<lfloor>(of_int d :: rat) / of_int 2\<rfloor> = d div 2" by (rule floor_divide_of_int_eq)
  then have "trunc (of_int d / 2) = d div 2"
    using assms by (simp add: trunc_nonneg)
  then have "math_Mod (of_int d) 2 = of_int d - 2 * of_int (d div 2)"
    by (simp add: math_Mod_def)
  also have "\<dots> = of_int (d - 2 * (d div 2))" by simp
  also have "d - 2 * (d div 2) = d mod 2" by (simp add: minus_mult_div_eq_mod)
  finally show ?thesis .
qed

lemma validateBitDepth_cases:
  "validateBitDepth d =
     (if d > 52 \<or> d \<le> 0 then Inl (BitDepthOutOfRange d)
      else if odd d then Inl (BitDepthNotEven d) else Inr ())"
proof (cases "d > 52 \<or> d \<le> 0")
  case True
  then show ?thesis by (auto simp: validateBitDepth_def MaxBitDepth_def)
next
  case False
  then have r: "0 \<le> d" by simp
  have fd: "float64_of_int d = of_int d"
    using False by (intro float64_of_int_exact) simp
  have f2: "float64_of_int 2 = 2"
    using float64_of_int_exact [of 2] by simp
  have "math_Mod (float64_of_int d) (float64_of_int 2) = of_int (d mod 2)"
    unfolding fd f2 by (rule math_Mod_2 [OF r])
  moreover have "(of_int (d mod 2) :: rat) \<noteq> 0 \<longleftrightarrow> odd d"
    by (simp add: odd_iff_mod_2_eq_one)
  ultimately show ?thesis using False by (simp add: validateBitDepth_def MaxBitDepth_def)
qed

lemma validateBitDepth_ok: "0 < d \<Longrightarrow> d \<le> 52 \<Longrightarrow> even d \<Longrightarrow> validateBitDepth d = Inr ()"
  by (simp add: validateBitDepth_cases)

lemma validateBitDepth_Inr_iff: "validateBitDepth d = Inr u \<longleftrightarrow> 0 < d \<and> d \<le> 52 \<and> even d"
  by (auto simp: validateBitDepth_cases)

section \<open>The bits that getBit reads\<close>

lemma getBit_exact:
  assumes "0 \<le> h" "h < 2 ^ 53" "0 \<le> p" "p < 2 ^ 53"
  shows "getBit h p = (h div 2 ^ nat p) mod 2"
proof -
  have fp: "float64_of_int p = of_int p" using assms by (simp add: float64_of_int_exact)
  have fh: "float64_of_int h = of_int h" using assms by (simp add: float64_of_int_exact)
  have pw: "math_Pow 2 (of_int p) = 2 ^ nat p"
    using assms fl_pow2 [of p] by (simp add: math_Pow_def power_int_def)
  have ah: "\<bar>h\<bar> < 2 ^ 53" using assms by simp
  have q: "fdiv (of_int h) (2 ^ nat p) = of_int h / 2 ^ nat p"
    unfolding fdiv_def by (rule fl_of_int_div_pow2 [OF ah])
  have "\<lfloor>(of_int h :: rat) / of_int (2 ^ nat p)\<rfloor> = h div 2 ^ nat p"
    by (rule floor_divide_of_int_eq)
  then have t: "trunc (of_int h / 2 ^ nat p) = h div 2 ^ nat p"
    using assms by (simp add: trunc_nonneg)
  have "0 \<le> h div 2 ^ nat p" using assms by (simp add: pos_imp_zdiv_nonneg_iff)
  moreover have "h div 2 ^ nat p \<le> h"
    using zdiv_mono2 [of h 1 "2 ^ nat p"] assms by simp
  ultimately have "int_of_float64 (of_int h / 2 ^ nat p) = h div 2 ^ nat p"
    using assms by (simp add: int_of_float64_def t)
  then show ?thesis
    by (simp add: getBit_def fp fh pw q and_one_eq)
qed

section \<open>The decoded box\<close>

lemma decode_step_cellbox:
  assumes "cellbox n box" "n \<le> 26"
  shows "cellbox (Suc n) (decode_step h steps t box)"
proof -
  obtain minLat minLng maxLat maxLng where box: "box = (minLat, minLng, maxLat, maxLng)"
    by (cases box) auto
  from assms(1) have g: "grid n minLat" "grid n minLng" "grid n maxLat" "grid n maxLng"
    and w: "maxLat - minLat = 180 / 2 ^ n" "maxLng - minLng = 360 / 2 ^ n"
    by (simp_all add: cellbox_def box)
  note la = grid_mid [OF g(3) g(1) assms(2)]
  note lo = grid_mid [OF g(4) g(2) assms(2)]
  have wla: "maxLat - (maxLat + minLat) / 2 = 180 / 2 ^ Suc n"
    "(maxLat + minLat) / 2 - minLat = 180 / 2 ^ Suc n"
    using w(1) by (simp_all add: field_simps)
  have wlo: "maxLng - (maxLng + minLng) / 2 = 360 / 2 ^ Suc n"
    "(maxLng + minLng) / 2 - minLng = 360 / 2 ^ Suc n"
    using w(2) by (simp_all add: field_simps)
  show ?thesis
    unfolding box decode_step.simps Let_def la(1) lo(1)
    using la(2) lo(2) g [THEN grid_Suc] wla wlo
    by (simp add: cellbox_def split: if_splits)
qed

declare decode_loop.simps [simp del]

lemma decode_loop_cellbox:
  "cellbox n box \<Longrightarrow> t \<le> steps \<Longrightarrow> n + nat (steps - t) \<le> 27 \<Longrightarrow>
     cellbox (n + nat (steps - t)) (decode_loop h steps t box)"
proof (induction h steps t box arbitrary: n rule: decode_loop.induct)
  case (1 h steps t box)
  show ?case
  proof (cases "t < steps")
    case True
    then have n: "n \<le> 26" using "1.prems" by simp
    have "cellbox (Suc n + nat (steps - (t + 1))) (decode_loop h steps (t + 1) (decode_step h steps t box))"
      using True "1.prems" by (intro "1.IH" decode_step_cellbox n) simp_all
    moreover have "Suc n + nat (steps - (t + 1)) = n + nat (steps - t)"
      using True by linarith
    ultimately have "cellbox (n + nat (steps - t))
        (decode_loop h steps (t + 1) (decode_step h steps t box))"
      by (simp only:)
    moreover have "decode_loop h steps t box =
        decode_loop h steps (t + 1) (decode_step h steps t box)"
      using True by (subst decode_loop.simps) simp
    ultimately show ?thesis by (simp only:)
  next
    case False
    with "1.prems" show ?thesis by (subst decode_loop.simps) simp
  qed
qed

lemma DecodeBboxInt_cellbox:
  assumes "0 < d" "d \<le> 52" "even d"
  shows "\<exists>box. DecodeBboxInt h d = Inr box \<and> cellbox (nat (d div 2)) box"
proof -
  have "cellbox (0 + nat (d div 2 - 0)) (decode_loop h (d div 2) 0 decode_init)"
    using assms by (intro decode_loop_cellbox cellbox_init) simp_all
  then show ?thesis
    using assms by (simp add: DecodeBboxInt_def validateBitDepth_ok)
qed

lemma DecodeInt_of_box:
  assumes "0 < d" "d \<le> 52" "even d"
    and "DecodeBboxInt h d = Inr (minLat, minLng, maxLat, maxLng)"
  shows "DecodeInt h d =
    Inr ((minLat + maxLat) / 2, (minLng + maxLng) / 2,
         90 / 2 ^ nat (d div 2), 180 / 2 ^ nat (d div 2))"
proof -
  define n where "n = nat (d div 2)"
  have n: "n \<le> 26" using assms by (simp add: n_def)
  from DecodeBboxInt_cellbox [OF assms(1-3), of h] assms(4)
  have c: "cellbox n (minLat, minLng, maxLat, maxLng)" by (simp add: n_def)
  then have g: "grid n minLat" "grid n minLng" "grid n maxLat" "grid n maxLng"
    and w: "maxLat - minLat = 180 / 2 ^ n" "maxLng - minLng = 360 / 2 ^ n"
    by (simp_all add: cellbox_def)
  note la = grid_mid [OF g(1) g(3) n]
  note lo = grid_mid [OF g(2) g(4) n]
  have ela: "maxLat - (minLat + maxLat) / 2 = of_int 90 / 2 ^ n"
    using w(1) by (simp add: field_simps)
  have elo: "maxLng - (minLng + maxLng) / 2 = of_int 180 / 2 ^ n"
    using w(2) by (simp add: field_simps)
  have "fsub maxLat ((minLat + maxLat) / 2) = 90 / 2 ^ n"
    unfolding fsub_def ela using fl_of_int_div_pow2 [of 90 n] by simp
  moreover have "fsub maxLng ((minLng + maxLng) / 2) = 180 / 2 ^ n"
    unfolding fsub_def elo using fl_of_int_div_pow2 [of 180 n] by simp
  ultimately show ?thesis
    using assms by (simp add: DecodeInt_def validateBitDepth_ok la(1) lo(1) n_def)
qed

section \<open>What the decoder reads of a hash\<close>

lemma decode_step_cong:
  assumes "\<And>p. 0 \<le> p \<Longrightarrow> p < 2 * steps \<Longrightarrow> getBit h p = getBit h' p"
    and "0 \<le> t" "t < steps"
  shows "decode_step h steps t box = decode_step h' steps t box"
proof -
  have "getBit h ((steps - t) * 2 - 1) = getBit h' ((steps - t) * 2 - 1)"
    using assms(2,3) by (intro assms(1)) simp_all
  moreover have "getBit h ((steps - t) * 2 - 2) = getBit h' ((steps - t) * 2 - 2)"
    using assms(2,3) by (intro assms(1)) simp_all
  ultimately show ?thesis
    by (cases box) (simp only: decode_step.simps)
qed

lemma decode_loop_cong:
  "(\<And>p. 0 \<le> p \<Longrightarrow> p < 2 * steps \<Longrightarrow> getBit h p = getBit h' p) \<Longrightarrow> 0 \<le> t \<Longrightarrow>
     decode_loop h steps t box = decode_loop h' steps t box"
proof (induction h steps t box rule: decode_loop.induct)
  case (1 h steps t box)
  show ?case
  proof (cases "t < steps")
    case True
    have s: "decode_step h steps t box = decode_step h' steps t box"
      using True "1.prems" by (intro decode_step_cong) simp_all
    have "decode_loop h steps (t + 1) (decode_step h steps t box) =
          decode_loop h' steps (t + 1) (decode_step h steps t box)"
      using True "1.prems" by (intro "1.IH") simp_all
    then show ?thesis
      using True s
      by (subst decode_loop.simps, subst (2) decode_loop.simps) simp
  next
    case False
    then show ?thesis
      by (subst decode_loop.simps, subst (2) decode_loop.simps) simp
  qed
qed

lemma div_pow2_mod2: "((h::int) div 2 ^ p) mod 2 = of_bool (bit h p)"
  by (simp add: bit_iff_odd of_bool_odd_eq_mod_2)

lemma getBit_take_bit:
  assumes "0 \<le> h" "h < 2 ^ 53" "0 \<le> p" "p < d" "d \<le> 52"
  shows "getBit (h mod 2 ^ nat d) p = getBit h p"
proof -
  have m: "0 \<le> h mod 2 ^ nat d" "h mod 2 ^ nat d < 2 ^ 53"
  proof -
    show "0 \<le> h mod 2 ^ nat d" by simp
    have "h mod 2 ^ nat d \<le> h" using assms(1) by (rule zmod_le_nonneg_dividend)
    with assms(2) show "h mod 2 ^ nat d < 2 ^ 53" by simp
  qed
  have p: "p < 2 ^ 53" using assms by simp
  have "bit (take_bit (nat d) h) (nat p) = bit h (nat p)"
    using assms by (simp add: bit_take_bit_iff)
  then show ?thesis
    unfolding getBit_exact [OF m assms(3) p] getBit_exact [OF assms(1,2,3) p] div_pow2_mod2
    by (simp add: take_bit_eq_mod)
qed

section \<open>The claims about decoding\<close>

text \<open>
  C3. For every valid bit depth and every hash, negative and out-of-range ones included,
  \<open>DecodeBboxInt\<close> returns a box with \<open>minLat \<le> maxLat\<close> and \<open>minLng \<le> maxLng\<close>, and
  the centre that \<open>DecodeInt\<close> returns lies within the box.
\<close>

theorem DecodeBboxInt_valid_box:
  assumes "0 < bitDepth" "bitDepth \<le> 52" "even bitDepth"
  shows "\<exists>minLat minLng maxLat maxLng lat lng latErr lngErr.
    DecodeBboxInt geohash bitDepth = Inr (minLat, minLng, maxLat, maxLng) \<and>
    DecodeInt geohash bitDepth = Inr (lat, lng, latErr, lngErr) \<and>
    minLat \<le> maxLat \<and> minLng \<le> maxLng \<and>
    minLat \<le> lat \<and> lat \<le> maxLat \<and> minLng \<le> lng \<and> lng \<le> maxLng"
proof -
  from DecodeBboxInt_cellbox [OF assms, of geohash]
  obtain minLat minLng maxLat maxLng
    where b: "DecodeBboxInt geohash bitDepth = Inr (minLat, minLng, maxLat, maxLng)"
      and c: "cellbox (nat (bitDepth div 2)) (minLat, minLng, maxLat, maxLng)"
    by (metis prod_cases4)
  define n where "n = nat (bitDepth div 2)"
  have w: "maxLat - minLat = 180 / 2 ^ n" "maxLng - minLng = 360 / 2 ^ n"
    using c by (simp_all add: cellbox_def n_def)
  have "(0::rat) < 180 / 2 ^ n" "(0::rat) < 360 / 2 ^ n" by simp_all
  with w have lt: "minLat < maxLat" "minLng < maxLng" by linarith+
  note d = DecodeInt_of_box [OF assms b]
  from lt have "minLat \<le> maxLat \<and> minLng \<le> maxLng \<and>
    minLat \<le> (minLat + maxLat) / 2 \<and> (minLat + maxLat) / 2 \<le> maxLat \<and>
    minLng \<le> (minLng + maxLng) / 2 \<and> (minLng + maxLng) / 2 \<le> maxLng"
    by simp
  with b d show ?thesis by blast
qed

theorem DecodeBboxInt_valid_box_witness:
  "(0::int) < 4 \<and> (4::int) \<le> 52 \<and> even (4::int) \<and>
   (\<exists>minLat minLng maxLat maxLng lat lng latErr lngErr.
    DecodeBboxInt (- 1) 4 = Inr (minLat, minLng, maxLat, maxLng) \<and>
    DecodeInt (- 1) 4 = Inr (lat, lng, latErr, lngErr) \<and>
    minLat \<le> maxLat \<and> minLng \<le> maxLng \<and>
    minLat \<le> lat \<and> lat \<le> maxLat \<and> minLng \<le> lng \<and> lng \<le> maxLng)"
  using DecodeBboxInt_valid_box [of 4 "- 1"] by simp

text \<open>
  C4. For every hash and every valid bit depth \<open>d\<close> with \<open>d + 2 \<le> 52\<close>, the error terms
  that \<open>DecodeInt\<close> returns at \<open>d + 2\<close> are half of those at \<open>d\<close>, and so strictly
  smaller.
\<close>

theorem DecodeInt_error_halves:
  assumes "0 < d" "d + 2 \<le> 52" "even d"
  shows "\<exists>lat lng latErr lngErr lat' lng' latErr' lngErr'.
    DecodeInt geohash d = Inr (lat, lng, latErr, lngErr) \<and>
    DecodeInt geohash (d + 2) = Inr (lat', lng', latErr', lngErr') \<and>
    latErr' = latErr / 2 \<and> lngErr' = lngErr / 2 \<and>
    latErr' < latErr \<and> lngErr' < lngErr"
proof -
  have v: "0 < d" "d \<le> 52" "even d" and v': "0 < d + 2" "d + 2 \<le> 52" "even (d + 2)"
    using assms by simp_all
  from DecodeBboxInt_cellbox [OF v, of geohash]
  obtain a b c e where b: "DecodeBboxInt geohash d = Inr (a, b, c, e)"
    by (metis prod_cases4)
  from DecodeBboxInt_cellbox [OF v', of geohash]
  obtain a' b' c' e' where b': "DecodeBboxInt geohash (d + 2) = Inr (a', b', c', e')"
    by (metis prod_cases4)
  note r = DecodeInt_of_box [OF v b] and r' = DecodeInt_of_box [OF v' b']
  have n: "nat ((d + 2) div 2) = Suc (nat (d div 2))"
    using assms by simp
  have "(90::rat) / 2 ^ Suc (nat (d div 2)) = 90 / 2 ^ nat (d div 2) / 2"
    "(180::rat) / 2 ^ Suc (nat (d div 2)) = 180 / 2 ^ nat (d div 2) / 2"
    "(90::rat) / 2 ^ Suc (nat (d div 2)) < 90 / 2 ^ nat (d div 2)"
    "(180::rat) / 2 ^ Suc (nat (d div 2)) < 180 / 2 ^ nat (d div 2)"
    by (simp_all add: field_simps)
  with r r' show ?thesis unfolding n by blast
qed

theorem DecodeInt_error_halves_witness:
  "(0::int) < 50 \<and> (50::int) + 2 \<le> 52 \<and> even (50::int) \<and>
   (\<exists>lat lng latErr lngErr lat' lng' latErr' lngErr'.
    DecodeInt 4064984913515641 50 = Inr (lat, lng, latErr, lngErr) \<and>
    DecodeInt 4064984913515641 (50 + 2) = Inr (lat', lng', latErr', lngErr') \<and>
    latErr' = latErr / 2 \<and> lngErr' = lngErr / 2 \<and>
    latErr' < latErr \<and> lngErr' < lngErr)"
  using DecodeInt_error_halves [of 50 4064984913515641] by simp

text \<open>
  C7. For every non-negative hash below \<open>2 ^ 53\<close> and every position from 0 to 52,
  \<open>getBit\<close> is the hash divided by \<open>2 ^ position\<close> and masked with 1, which is the bit of
  the hash at that position counted from the least significant one, and it is 0 or 1.
\<close>

theorem getBit_is_bit:
  assumes "0 \<le> hash" "hash < 2 ^ 53" "0 \<le> position" "position \<le> 52"
  shows "getBit hash position = (hash div 2 ^ nat position) AND 1 \<and>
         getBit hash position = of_bool (bit hash (nat position)) \<and>
         getBit hash position \<in> {0, 1}"
proof -
  have p: "position < 2 ^ 53" using assms by simp
  have g: "getBit hash position = (hash div 2 ^ nat position) mod 2"
    by (rule getBit_exact [OF assms(1-3) p])
  then show ?thesis
    by (simp add: and_one_eq div_pow2_mod2)
qed

theorem getBit_is_bit_witness:
  "(0::int) \<le> 6 \<and> (6::int) < 2 ^ 53 \<and> (0::int) \<le> 2 \<and> (2::int) \<le> 52 \<and>
   getBit 6 2 = (6 div 2 ^ nat 2) AND 1 \<and>
   getBit 6 2 = of_bool (bit (6::int) (nat 2)) \<and>
   getBit 6 2 \<in> {0, 1}"
  using getBit_is_bit [of 6 2] by simp

text \<open>
  C10. For every valid bit depth \<open>d\<close> and every non-negative hash below \<open>2 ^ 53\<close>,
  \<open>DecodeBboxInt\<close> returns for the hash the box of its lowest \<open>d\<close> bits: the bits
  at the positions \<open>d\<close> and above are not read.
\<close>

theorem DecodeBboxInt_low_bits:
  assumes "0 < d" "d \<le> 52" "even d" "0 \<le> h" "h < 2 ^ 53"
  shows "DecodeBboxInt h d = DecodeBboxInt (h mod 2 ^ nat d) d"
proof -
  have "decode_loop (h mod 2 ^ nat d) (d div 2) 0 decode_init =
        decode_loop h (d div 2) 0 decode_init"
  proof (rule decode_loop_cong)
    fix p :: int
    assume "0 \<le> p" "p < 2 * (d div 2)"
    then show "getBit (h mod 2 ^ nat d) p = getBit h p"
      using assms by (intro getBit_take_bit) simp_all
  qed simp
  then show ?thesis unfolding DecodeBboxInt_def by (simp only:)
qed

theorem DecodeBboxInt_low_bits_witness:
  "(0::int) < 4 \<and> (4::int) \<le> 52 \<and> even (4::int) \<and> (0::int) \<le> 21 \<and> (21::int) < 2 ^ 53 \<and>
   DecodeBboxInt 21 4 = DecodeBboxInt 5 4"
  using DecodeBboxInt_low_bits [of 4 21] by simp

section \<open>Which calls panic\<close>

lemma EncodeInt_Inl_iff: "EncodeInt latitude longitude d = Inl e \<longleftrightarrow> validateBitDepth d = Inl e"
  by (simp add: EncodeInt_def split: sum.splits)

lemma DecodeBboxInt_Inl_iff: "DecodeBboxInt h d = Inl e \<longleftrightarrow> validateBitDepth d = Inl e"
  by (simp add: DecodeBboxInt_def split: sum.splits)

lemma DecodeInt_Inl_iff: "DecodeInt h d = Inl e \<longleftrightarrow> validateBitDepth d = Inl e"
proof (cases "validateBitDepth d")
  case (Inl e')
  then show ?thesis by (simp add: DecodeInt_def)
next
  case (Inr u)
  then have "DecodeBboxInt h d \<noteq> Inl e'" for e'
    by (simp add: DecodeBboxInt_Inl_iff)
  then obtain a b c e' where p: "DecodeBboxInt h d = Inr (a, b, c, e')"
    by (cases "DecodeBboxInt h d") (auto simp: prod_eq_iff)
  show ?thesis
    unfolding DecodeInt_def Inr p Let_def by simp
qed

lemma NeighborInt_Inl_iff: "NeighborInt h b d = Inl e \<longleftrightarrow> validateBitDepth d = Inl e"
proof (cases "validateBitDepth d")
  case (Inl e')
  then show ?thesis by (cases b) simp
next
  case (Inr u)
  obtain x y where b: "b = Bearing x y" by (cases b) auto
  have dec: "DecodeInt h d \<noteq> Inl e'" for e'
    using Inr by (simp add: DecodeInt_Inl_iff)
  then obtain lat lng latErr lngErr where p: "DecodeInt h d = Inr (lat, lng, latErr, lngErr)"
    by (cases "DecodeInt h d") (auto simp: prod_eq_iff)
  show ?thesis
    unfolding b NeighborInt.simps Inr p Let_def
    using Inr by (simp add: EncodeInt_Inl_iff)
qed

lemma Shift_Inl_iff: "Shift v d = Inl e \<longleftrightarrow> validateBitDepth d = Inl e"
  by (simp add: Shift_def split: sum.splits)

lemma append_result_Inl_iff:
  "append_result out r = Inl e \<longleftrightarrow> out = Inl e \<or> (\<not> isl out \<and> r = Inl e)"
  by (cases out; cases r) auto

lemma foldl_append_result_Inl:
  assumes "\<And>x. \<not> isl (f x)"
  shows "foldl (\<lambda>output x. append_result output (f x)) acc xs = Inl e \<longleftrightarrow> acc = Inl e"
proof (induction xs arbitrary: acc)
  case Nil
  show ?case by simp
next
  case (Cons x xs)
  have "f x \<noteq> Inl e" using assms [of x] by (cases "f x") auto
  then show ?case by (simp add: Cons.IH append_result_Inl_iff)
qed

lemma foldl_foldl_append_result_Inl:
  assumes "\<And>x y. \<not> isl (f x y)"
  shows "foldl (\<lambda>output x. foldl (\<lambda>output y. append_result output (f x y)) output (ys x))
           acc xs = Inl e \<longleftrightarrow> acc = Inl e"
proof (induction xs arbitrary: acc)
  case Nil
  show ?case by simp
next
  case (Cons x xs)
  show ?case
    by (simp add: Cons.IH foldl_append_result_Inl [of "f x", OF assms])
qed

lemma NeighborInt_Inr:
  assumes "validateBitDepth d = Inr u"
  shows "\<exists>n. NeighborInt h b d = Inr n"
proof (cases "NeighborInt h b d")
  case (Inl e)
  with assms show ?thesis by (simp add: NeighborInt_Inl_iff)
next
  case (Inr n)
  then show ?thesis by simp
qed

lemma NeighborsInt_Inr:
  assumes "validateBitDepth d = Inr u"
  shows "\<exists>n ne e se s sw w nw.
    NeighborInt h North d = Inr n \<and> NeighborInt h NorthEast d = Inr ne \<and>
    NeighborInt h East d = Inr e \<and> NeighborInt h SouthEast d = Inr se \<and>
    NeighborInt h South d = Inr s \<and> NeighborInt h SouthWest d = Inr sw \<and>
    NeighborInt h West d = Inr w \<and> NeighborInt h NorthWest d = Inr nw \<and>
    NeighborsInt h d = Inr [n, ne, e, se, s, sw, w, nw, h]"
proof -
  obtain n where n: "NeighborInt h North d = Inr n"
    using NeighborInt_Inr [OF assms] by blast
  obtain ne where ne: "NeighborInt h NorthEast d = Inr ne"
    using NeighborInt_Inr [OF assms] by blast
  obtain e where e: "NeighborInt h East d = Inr e"
    using NeighborInt_Inr [OF assms] by blast
  obtain se where se: "NeighborInt h SouthEast d = Inr se"
    using NeighborInt_Inr [OF assms] by blast
  obtain s where s: "NeighborInt h South d = Inr s"
    using NeighborInt_Inr [OF assms] by blast
  obtain sw where sw: "NeighborInt h SouthWest d = Inr sw"
    using NeighborInt_Inr [OF assms] by blast
  obtain w where w: "NeighborInt h West d = Inr w"
    using NeighborInt_Inr [OF assms] by blast
  obtain nw where nw: "NeighborInt h NorthWest d = Inr nw"
    using NeighborInt_Inr [OF assms] by blast
  have "NeighborsInt h d = Inr [n, ne, e, se, s, sw, w, nw, h]"
    unfolding NeighborsInt_def Let_def n ne e se s sw w nw assms by simp
  with n ne e se s sw w nw show ?thesis by blast
qed

lemma NeighborsInt_Inl_iff: "NeighborsInt h d = Inl e \<longleftrightarrow> validateBitDepth d = Inl e"
proof (cases "validateBitDepth d")
  case (Inl e')
  then show ?thesis by (simp add: NeighborsInt_def)
next
  case (Inr u)
  from NeighborsInt_Inr [OF this, of h]
  obtain ns where "NeighborsInt h d = Inr ns" by blast
  with Inr show ?thesis by simp
qed

lemma isl_iff_validate:
  assumes "\<And>e. r = Inl e \<longleftrightarrow> validateBitDepth d = Inl e"
  shows "isl r \<longleftrightarrow> d \<le> 0 \<or> 52 < d \<or> odd d"
proof (cases "validateBitDepth d")
  case (Inl e)
  then have "r = Inl e" by (simp only: assms)
  moreover have "d \<le> 0 \<or> 52 < d \<or> odd d"
    using Inl validateBitDepth_Inr_iff [of d "()"] by auto
  ultimately show ?thesis by simp
next
  case (Inr u)
  have "r \<noteq> Inl e" for e using Inr by (simp add: assms)
  then have "\<not> isl r" by (cases r) auto
  moreover have "\<not> (d \<le> 0 \<or> 52 < d \<or> odd d)"
    using Inr validateBitDepth_Inr_iff [of d u] by auto
  ultimately show ?thesis by simp
qed

lemma BboxesInt_Inl_iff:
  "BboxesInt minLat minLon maxLat maxLon d = Inl e \<longleftrightarrow> validateBitDepth d = Inl e"
proof (cases "validateBitDepth d")
  case (Inl e')
  then show ?thesis by (simp add: BboxesInt_def)
next
  case (Inr u)
  have n: "\<not> isl (NeighborInt h (Bearing x y) d)" for h x y
    using NeighborInt_Inr [OF Inr, of h "Bearing x y"] by auto
  obtain sw where sw: "EncodeInt minLat minLon d = Inr sw"
    using Inr by (simp add: EncodeInt_def)
  obtain ne where ne: "EncodeInt maxLat maxLon d = Inr ne"
    using Inr by (simp add: EncodeInt_def)
  have "DecodeInt sw d \<noteq> Inl e'" for e'
    using Inr by (simp add: DecodeInt_Inl_iff)
  then obtain lat lng latErr lngErr where p: "DecodeInt sw d = Inr (lat, lng, latErr, lngErr)"
    by (cases "DecodeInt sw d") (auto simp: prod_eq_iff)
  have box: "DecodeBboxInt h d \<noteq> Inl e'" for h e'
    using Inr by (simp add: DecodeBboxInt_Inl_iff)
  obtain a1 a2 a3 a4 where bsw: "DecodeBboxInt sw d = Inr (a1, a2, a3, a4)"
    using box [of sw] by (cases "DecodeBboxInt sw d") (auto simp: prod_eq_iff)
  obtain b1 b2 b3 b4 where bne: "DecodeBboxInt ne d = Inr (b1, b2, b3, b4)"
    using box [of ne] by (cases "DecodeBboxInt ne d") (auto simp: prod_eq_iff)
  show ?thesis
    by (simp add: BboxesInt_def Let_def Inr sw ne p bsw bne
        foldl_foldl_append_result_Inl [of "\<lambda>x y. NeighborInt sw (Bearing x y) d", OF n]
        del: NeighborInt.simps)
qed

text \<open>
  C2. Each of \<open>EncodeInt\<close>, \<open>DecodeInt\<close>, \<open>DecodeBboxInt\<close>, \<open>NeighborInt\<close>,
  \<open>NeighborsInt\<close>, \<open>BboxesInt\<close> and \<open>Shift\<close> panics if and only if the bit depth is at
  most 0, above 52 or odd, and so accepts every even bit depth from 2 to 52. The panic is
  the one \<open>validateBitDepth\<close> raises for that bit depth, whatever the other arguments
  are: the check comes first and nothing else in the call can fail.
\<close>

theorem bitDepth_checked_first:
  "(isl (validateBitDepth bitDepth) \<longleftrightarrow> bitDepth \<le> 0 \<or> 52 < bitDepth \<or> odd bitDepth) \<and>
   (isl (EncodeInt latitude longitude bitDepth) \<longleftrightarrow> bitDepth \<le> 0 \<or> 52 < bitDepth \<or> odd bitDepth) \<and>
   (isl (DecodeInt geohash bitDepth) \<longleftrightarrow> bitDepth \<le> 0 \<or> 52 < bitDepth \<or> odd bitDepth) \<and>
   (isl (DecodeBboxInt geohash bitDepth) \<longleftrightarrow> bitDepth \<le> 0 \<or> 52 < bitDepth \<or> odd bitDepth) \<and>
   (isl (NeighborInt geohash b bitDepth) \<longleftrightarrow> bitDepth \<le> 0 \<or> 52 < bitDepth \<or> odd bitDepth) \<and>
   (isl (NeighborsInt geohash bitDepth) \<longleftrightarrow> bitDepth \<le> 0 \<or> 52 < bitDepth \<or> odd bitDepth) \<and>
   (isl (BboxesInt minLat minLon maxLat maxLon bitDepth)
      \<longleftrightarrow> bitDepth \<le> 0 \<or> 52 < bitDepth \<or> odd bitDepth) \<and>
   (isl (Shift v bitDepth) \<longleftrightarrow> bitDepth \<le> 0 \<or> 52 < bitDepth \<or> odd bitDepth) \<and>
   (EncodeInt latitude longitude bitDepth = Inl e \<longleftrightarrow> validateBitDepth bitDepth = Inl e) \<and>
   (DecodeInt geohash bitDepth = Inl e \<longleftrightarrow> validateBitDepth bitDepth = Inl e) \<and>
   (DecodeBboxInt geohash bitDepth = Inl e \<longleftrightarrow> validateBitDepth bitDepth = Inl e) \<and>
   (NeighborInt geohash b bitDepth = Inl e \<longleftrightarrow> validateBitDepth bitDepth = Inl e) \<and>
   (NeighborsInt geohash bitDepth = Inl e \<longleftrightarrow> validateBitDepth bitDepth = Inl e) \<and>
   (BboxesInt minLat minLon maxLat maxLon bitDepth = Inl e
      \<longleftrightarrow> validateBitDepth bitDepth = Inl e) \<and>
   (Shift v bitDepth = Inl e \<longleftrightarrow> validateBitDepth bitDepth = Inl e)"
proof -
  have 0: "isl (validateBitDepth bitDepth) \<longleftrightarrow> bitDepth \<le> 0 \<or> 52 < bitDepth \<or> odd bitDepth"
    by (rule isl_iff_validate) simp
  have 1: "isl (EncodeInt latitude longitude bitDepth)
      \<longleftrightarrow> bitDepth \<le> 0 \<or> 52 < bitDepth \<or> odd bitDepth"
    by (rule isl_iff_validate) (rule EncodeInt_Inl_iff)
  have 2: "isl (DecodeInt geohash bitDepth) \<longleftrightarrow> bitDepth \<le> 0 \<or> 52 < bitDepth \<or> odd bitDepth"
    by (rule isl_iff_validate) (rule DecodeInt_Inl_iff)
  have 3: "isl (DecodeBboxInt geohash bitDepth)
      \<longleftrightarrow> bitDepth \<le> 0 \<or> 52 < bitDepth \<or> odd bitDepth"
    by (rule isl_iff_validate) (rule DecodeBboxInt_Inl_iff)
  have 4: "isl (NeighborInt geohash b bitDepth)
      \<longleftrightarrow> bitDepth \<le> 0 \<or> 52 < bitDepth \<or> odd bitDepth"
    by (rule isl_iff_validate) (rule NeighborInt_Inl_iff)
  have 5: "isl (NeighborsInt geohash bitDepth)
      \<longleftrightarrow> bitDepth \<le> 0 \<or> 52 < bitDepth \<or> odd bitDepth"
    by (rule isl_iff_validate) (rule NeighborsInt_Inl_iff)
  have 6: "isl (BboxesInt minLat minLon maxLat maxLon bitDepth)
      \<longleftrightarrow> bitDepth \<le> 0 \<or> 52 < bitDepth \<or> odd bitDepth"
    by (rule isl_iff_validate) (rule BboxesInt_Inl_iff)
  have 7: "isl (Shift v bitDepth) \<longleftrightarrow> bitDepth \<le> 0 \<or> 52 < bitDepth \<or> odd bitDepth"
    by (rule isl_iff_validate) (rule Shift_Inl_iff)
  show ?thesis
    by (intro conjI 0 1 2 3 4 5 6 7 EncodeInt_Inl_iff DecodeInt_Inl_iff DecodeBboxInt_Inl_iff
        NeighborInt_Inl_iff NeighborsInt_Inl_iff BboxesInt_Inl_iff Shift_Inl_iff)
qed

theorem bitDepth_checked_first_witness:
  "isl (EncodeInt (Finite 0) (Finite 0) 51) \<and> isl (EncodeInt (Finite 0) (Finite 0) 0) \<and>
   isl (EncodeInt (Finite 0) (Finite 0) (- 1)) \<and> isl (EncodeInt (Finite 0) (Finite 0) 53) \<and>
   \<not> isl (EncodeInt (Finite 0) (Finite 0) 2) \<and> \<not> isl (EncodeInt (Finite 0) (Finite 0) 52) \<and>
   isl (BboxesInt (Finite 0) (Finite 0) (Finite 1) (Finite 1) 51) \<and>
   \<not> isl (BboxesInt (Finite 0) (Finite 0) (Finite 1) (Finite 1) 52) \<and>
   isl (NeighborsInt 5 53) \<and> \<not> isl (NeighborsInt 5 4) \<and>
   isl (Shift 5 0) \<and> \<not> isl (Shift 5 4)"
  using bitDepth_checked_first [of 51 "Finite 0" "Finite 0" 5 North "Finite 0" "Finite 0" "Finite 1" "Finite 1" 5]
    bitDepth_checked_first [of 0 "Finite 0" "Finite 0" 5 North "Finite 0" "Finite 0" "Finite 1" "Finite 1" 5]
    bitDepth_checked_first [of "- 1" "Finite 0" "Finite 0" 5 North "Finite 0" "Finite 0" "Finite 1" "Finite 1" 5]
    bitDepth_checked_first [of 53 "Finite 0" "Finite 0" 5 North "Finite 0" "Finite 0" "Finite 1" "Finite 1" 5]
    bitDepth_checked_first [of 2 "Finite 0" "Finite 0" 5 North "Finite 0" "Finite 0" "Finite 1" "Finite 1" 5]
    bitDepth_checked_first [of 52 "Finite 0" "Finite 0" 5 North "Finite 0" "Finite 0" "Finite 1" "Finite 1" 5]
    bitDepth_checked_first [of 4 "Finite 0" "Finite 0" 5 North "Finite 0" "Finite 0" "Finite 1" "Finite 1" 5]
  by simp

section \<open>The neighbours of a cell\<close>

text \<open>
  C5. For every hash and every valid bit depth \<open>NeighborsInt\<close> returns nine values: the
  neighbours to the north, north-east, east, south-east, south, south-west, west and
  north-west, in this order, and then the hash itself, unchanged.
\<close>

theorem NeighborsInt_nine:
  assumes "0 < bitDepth" "bitDepth \<le> 52" "even bitDepth"
  shows "\<exists>ns. NeighborsInt geohash bitDepth = Inr ns \<and> length ns = 9 \<and>
    NeighborInt geohash North bitDepth = Inr (ns ! 0) \<and>
    NeighborInt geohash NorthEast bitDepth = Inr (ns ! 1) \<and>
    NeighborInt geohash East bitDepth = Inr (ns ! 2) \<and>
    NeighborInt geohash SouthEast bitDepth = Inr (ns ! 3) \<and>
    NeighborInt geohash South bitDepth = Inr (ns ! 4) \<and>
    NeighborInt geohash SouthWest bitDepth = Inr (ns ! 5) \<and>
    NeighborInt geohash West bitDepth = Inr (ns ! 6) \<and>
    NeighborInt geohash NorthWest bitDepth = Inr (ns ! 7) \<and>
    ns ! 8 = geohash"
proof -
  have v: "validateBitDepth bitDepth = Inr ()"
    using assms by (rule validateBitDepth_ok)
  from NeighborsInt_Inr [OF v, of geohash]
  obtain n ne e se s sw w nw where
    "NeighborInt geohash North bitDepth = Inr n" "NeighborInt geohash NorthEast bitDepth = Inr ne"
    "NeighborInt geohash East bitDepth = Inr e" "NeighborInt geohash SouthEast bitDepth = Inr se"
    "NeighborInt geohash South bitDepth = Inr s" "NeighborInt geohash SouthWest bitDepth = Inr sw"
    "NeighborInt geohash West bitDepth = Inr w" "NeighborInt geohash NorthWest bitDepth = Inr nw"
    "NeighborsInt geohash bitDepth = Inr [n, ne, e, se, s, sw, w, nw, geohash]"
    by blast
  then show ?thesis
    by (intro exI [of _ "[n, ne, e, se, s, sw, w, nw, geohash]"]) simp
qed

theorem NeighborsInt_nine_witness:
  "(0::int) < 32 \<and> (32::int) \<le> 52 \<and> even (32::int) \<and>
   (\<exists>ns. NeighborsInt 1702789509 32 = Inr ns \<and> length ns = 9 \<and>
    NeighborInt 1702789509 North 32 = Inr (ns ! 0) \<and>
    NeighborInt 1702789509 NorthEast 32 = Inr (ns ! 1) \<and>
    NeighborInt 1702789509 East 32 = Inr (ns ! 2) \<and>
    NeighborInt 1702789509 SouthEast 32 = Inr (ns ! 3) \<and>
    NeighborInt 1702789509 South 32 = Inr (ns ! 4) \<and>
    NeighborInt 1702789509 SouthWest 32 = Inr (ns ! 5) \<and>
    NeighborInt 1702789509 West 32 = Inr (ns ! 6) \<and>
    NeighborInt 1702789509 NorthWest 32 = Inr (ns ! 7) \<and>
    ns ! 8 = 1702789509)"
  using NeighborsInt_nine [of 32 1702789509] by simp

section \<open>The precision table\<close>

lemma wrap64_id: "- (2 ^ 63) \<le> i \<Longrightarrow> i < 2 ^ 63 \<Longrightarrow> wrap64 i = i"
  by (simp add: wrap64_def)

lemma FindBitDepth_no_match:
  "(\<And>key v. (key, v) \<in> set entries \<Longrightarrow> \<not> float64_gt (Finite v) distanceMeters) \<Longrightarrow>
     FindBitDepth entries distanceMeters = 0"
proof (induction entries)
  case Nil
  show ?case by simp
next
  case (Cons kv entries)
  obtain key v where kv: "kv = (key, v)" by (cases kv) auto
  have "\<not> float64_gt (Finite v) distanceMeters"
    using Cons.prems [of key v] by (simp add: kv)
  moreover have "FindBitDepth entries distanceMeters = 0"
  proof (rule Cons.IH)
    fix key' v'
    assume "(key', v') \<in> set entries"
    then show "\<not> float64_gt (Finite v') distanceMeters"
      using Cons.prems [of key' v'] by simp
  qed
  ultimately show ?case by (simp add: kv)
qed

lemma first_radius_above_half: "1 / 2 < fl (5971 / 10000)"
  by (simp add: fl_def ilog2_def rne_def Let_def compute_bitlen)

lemma find_slice_zero_iff:
  "0 \<le> key \<Longrightarrow> key + int (length vs) \<le> 25 \<Longrightarrow>
     find_slice key vs distance = 0 \<longleftrightarrow> (\<forall>v \<in> set vs. \<not> float64_gt (Finite v) distance)"
proof (induction vs arbitrary: key)
  case Nil
  show ?case by simp
next
  case (Cons v vs)
  have k: "wrap64 (key * 2) = key * 2" using Cons.prems by (intro wrap64_id) simp_all
  have "wrap64 (52 - key * 2) = 52 - key * 2" using Cons.prems by (intro wrap64_id) simp_all
  moreover have "52 - key * 2 \<noteq> 0" using Cons.prems by simp
  ultimately have nz: "wrap64 (MaxBitDepth - wrap64 (key * 2)) \<noteq> 0"
    by (simp add: k MaxBitDepth_def)
  have "find_slice (key + 1) vs distance = 0 \<longleftrightarrow> (\<forall>v \<in> set vs. \<not> float64_gt (Finite v) distance)"
    using Cons.prems by (intro Cons.IH) simp_all
  with nz show ?case by simp
qed

lemma FindBitDepth_slice_zero_iff:
  "FindBitDepth_slice distance = 0 \<longleftrightarrow>
     (\<forall>v \<in> set bitsToRadiusMap. \<not> float64_gt (Finite v) distance)"
  unfolding FindBitDepth_slice_def
  by (rule find_slice_zero_iff) (simp_all add: bitsToRadiusMap_def)

lemma bitsToRadiusMap_table: "bitsToRadiusMap = map snd bitsToDistanceInMeters"
  by (simp add: bitsToRadiusMap_def bitsToDistanceInMeters_def)

lemma table_bounded: "v \<in> set bitsToRadiusMap \<Longrightarrow> v \<le> 10018863"
proof -
  have "list_all (\<lambda>v. v \<le> 10018863) bitsToRadiusMap" by code_simp
  then show "v \<in> set bitsToRadiusMap \<Longrightarrow> v \<le> 10018863"
    by (simp add: list_all_iff)
qed

lemma table_largest: "10018863 \<in> set bitsToRadiusMap"
proof -
  have "fl 10018863 = 10018863" using fl_of_int [of 10018863] by simp
  moreover have "fl 10018863 \<in> set bitsToRadiusMap"
    by (simp add: bitsToRadiusMap_def)
  ultimately show ?thesis by simp
qed

lemma FindBitDepth_slice_zero: "FindBitDepth_slice (Finite x) = 0 \<longleftrightarrow> 10018863 \<le> x"
proof
  assume "FindBitDepth_slice (Finite x) = 0"
  then have "\<not> float64_gt (Finite 10018863) (Finite x)"
    using table_largest by (simp add: FindBitDepth_slice_zero_iff)
  then show "10018863 \<le> x" by simp
next
  assume "10018863 \<le> x"
  then have "\<not> float64_gt (Finite v) (Finite x)" if "v \<in> set bitsToRadiusMap" for v
    using table_bounded [OF that] by simp
  then show "FindBitDepth_slice (Finite x) = 0"
    by (simp add: FindBitDepth_slice_zero_iff)
qed

lemma FindBitDepth_beyond_table:
  assumes "range_order entries" "10018863 \<le> x"
  shows "FindBitDepth entries (Finite x) = 0"
proof (rule FindBitDepth_no_match)
  fix key v
  assume "(key, v) \<in> set entries"
  moreover have "set entries = set bitsToDistanceInMeters"
    using assms(1) unfolding range_order_def by (rule mset_eq_setD)
  ultimately have "v \<in> set bitsToRadiusMap"
    unfolding bitsToRadiusMap_table by force
  from table_bounded [OF this] assms(2) show "\<not> float64_gt (Finite v) (Finite x)" by simp
qed

text \<open>
  C8. \<open>FindBitDepth\<close> returns 0 where no radius of the table exceeds the distance
  (\<open>FindBitDepth_no_match\<close>, \<open>FindBitDepth_beyond_table\<close>), and the slice version
  returns 0 in no other case (\<open>FindBitDepth_slice_zero_iff\<close>). The map version also
  returns 0 where the \<open>range\<close> over the map comes to the key 52 first and the distance
  is below the radius of that entry, since \<open>MaxBitDepth - 52\<close> is 0: at the distance
  0.5, with the entries visited in the order in which the source lists them, the result is
  0 although the radius 0.5971 of the table exceeds 0.5.
\<close>

theorem FindBitDepth_zero_on_match:
  "range_order bitsToDistanceInMeters \<and>
   (52, fl (5971 / 10000)) \<in> set bitsToDistanceInMeters \<and>
   float64_gt (Finite (fl (5971 / 10000))) (Finite (1 / 2)) \<and>
   FindBitDepth bitsToDistanceInMeters (Finite (1 / 2)) = 0"
proof -
  have "FindBitDepth ((52, fl (5971 / 10000)) # entries) (Finite (1 / 2)) = 0" for entries
    using first_radius_above_half by (simp add: MaxBitDepth_def wrap64_def)
  then have "FindBitDepth bitsToDistanceInMeters (Finite (1 / 2)) = 0"
    unfolding bitsToDistanceInMeters_def by (rule meta_spec)
  moreover have "(52, fl (5971 / 10000)) \<in> set bitsToDistanceInMeters"
    unfolding bitsToDistanceInMeters_def by (simp only: list.set_intros(1))
  ultimately show ?thesis
    using first_radius_above_half by (simp add: range_order_def)
qed

section \<open>The encoder two bits at a time\<close>

lemma quadrant_range: "0 \<le> quadrant la lo box" "quadrant la lo box < 4"
  by (cases box; simp)+

lemma halve_cellbox:
  assumes "cellbox n box" "n \<le> 26"
  shows "cellbox (Suc n) (halve r box)"
proof -
  obtain minLat minLng maxLat maxLng where box: "box = (minLat, minLng, maxLat, maxLng)"
    by (cases box) auto
  from assms(1) have g: "grid n minLat" "grid n minLng" "grid n maxLat" "grid n maxLng"
    and w: "maxLat - minLat = 180 / 2 ^ n" "maxLng - minLng = 360 / 2 ^ n"
    by (simp_all add: cellbox_def box)
  note la = grid_mid [OF g(3) g(1) assms(2)]
  note lo = grid_mid [OF g(4) g(2) assms(2)]
  have wla: "maxLat - (maxLat + minLat) / 2 = 180 / 2 ^ Suc n"
    "(maxLat + minLat) / 2 - minLat = 180 / 2 ^ Suc n"
    using w(1) by (simp_all add: field_simps)
  have wlo: "maxLng - (maxLng + minLng) / 2 = 360 / 2 ^ Suc n"
    "(maxLng + minLng) / 2 - minLng = 360 / 2 ^ Suc n"
    using w(2) by (simp_all add: field_simps)
  show ?thesis
    unfolding box halve.simps
    using la(2) lo(2) g [THEN grid_Suc] wla wlo
    by (simp add: cellbox_def)
qed

lemma getBit_low:
  assumes "0 \<le> g" "g < 2 ^ 51" "0 \<le> r" "r < 4"
  shows "getBit (4 * g + r) 1 = r div 2" "getBit (4 * g + r) 0 = r mod 2"
proof -
  have h: "0 \<le> 4 * g + r" "4 * g + r < 2 ^ 53" using assms by simp_all
  have "getBit (4 * g + r) 1 = ((4 * g + r) div 2 ^ nat 1) mod 2"
    by (rule getBit_exact [OF h]) simp_all
  also have "\<dots> = ((4 * g + r) div 2) mod 2" by simp
  also have "\<dots> = r div 2" using assms by presburger
  finally show "getBit (4 * g + r) 1 = r div 2" .
  have "getBit (4 * g + r) 0 = ((4 * g + r) div 2 ^ nat 0) mod 2"
    by (rule getBit_exact [OF h]) simp_all
  also have "\<dots> = (4 * g + r) mod 2" by simp
  also have "\<dots> = r mod 2" by presburger
  finally show "getBit (4 * g + r) 0 = r mod 2" .
qed

lemma getBit_high:
  assumes "0 \<le> g" "g < 2 ^ 51" "0 \<le> r" "r < 4" "0 \<le> p" "p < 2 ^ 52"
  shows "getBit (4 * g + r) (p + 2) = getBit g p"
proof -
  have h: "0 \<le> 4 * g + r" "4 * g + r < 2 ^ 53" using assms by simp_all
  have g: "g < 2 ^ 53" using assms by simp
  have d: "(4 * g + r) div 4 = g" using assms by simp
  have "getBit (4 * g + r) (p + 2) = ((4 * g + r) div 2 ^ nat (p + 2)) mod 2"
    using assms by (intro getBit_exact [OF h]) simp_all
  also have "nat (p + 2) = 2 + nat p" using assms by simp
  also have "(4 * g + r) div 2 ^ (2 + nat p) = ((4 * g + r) div 4) div 2 ^ nat p"
    by (simp add: power_add zdiv_zmult2_eq)
  also have "\<dots> mod 2 = getBit g p"
    unfolding d using assms by (intro getBit_exact [symmetric] g) simp_all
  finally show ?thesis .
qed

lemma decode_step_last:
  assumes "cellbox n box" "n \<le> 26" "0 \<le> g" "g < 2 ^ 51" "0 \<le> r" "r < 4"
  shows "decode_step (4 * g + r) (int n + 1) (int n) box = halve r box"
proof -
  obtain minLat minLng maxLat maxLng where box: "box = (minLat, minLng, maxLat, maxLng)"
    by (cases box) auto
  from assms(1) have g: "grid n minLat" "grid n minLng" "grid n maxLat" "grid n maxLng"
    by (simp_all add: cellbox_def box)
  note la = grid_mid(1) [OF g(3) g(1) assms(2)]
  note lo = grid_mid(1) [OF g(4) g(2) assms(2)]
  have p: "(int n + 1 - int n) * 2 - 1 = 1" "(int n + 1 - int n) * 2 - 2 = 0" by simp_all
  show ?thesis
    unfolding box decode_step.simps p getBit_low [OF assms(3-6)] la lo Let_def halve.simps
    by simp
qed

lemma decode_step_shift:
  assumes "0 \<le> g" "g < 2 ^ 51" "0 \<le> r" "r < 4" "0 \<le> t" "t < n" "n \<le> 26"
  shows "decode_step (4 * g + r) (n + 1) t box = decode_step g n t box"
proof -
  have "getBit (4 * g + r) (((n - t) * 2 - 1) + 2) = getBit g ((n - t) * 2 - 1)"
    using assms by (intro getBit_high) simp_all
  moreover have "getBit (4 * g + r) (((n - t) * 2 - 2) + 2) = getBit g ((n - t) * 2 - 2)"
    using assms by (intro getBit_high) simp_all
  moreover have "(n + 1 - t) * 2 - 1 = ((n - t) * 2 - 1) + 2"
    "(n + 1 - t) * 2 - 2 = ((n - t) * 2 - 2) + 2" by simp_all
  ultimately show ?thesis
    by (cases box) (simp only: decode_step.simps)
qed

lemma decode_loop_split:
  "0 \<le> g \<Longrightarrow> g < 2 ^ 51 \<Longrightarrow> 0 \<le> r \<Longrightarrow> r < 4 \<Longrightarrow> 0 \<le> t \<Longrightarrow> t \<le> n \<Longrightarrow> n \<le> 26 \<Longrightarrow>
     decode_loop (4 * g + r) (n + 1) t box =
     decode_step (4 * g + r) (n + 1) n (decode_loop g n t box)"
proof (induction g n t box rule: decode_loop.induct)
  case (1 g n t box)
  show ?case
  proof (cases "t < n")
    case True
    have s: "decode_step (4 * g + r) (n + 1) t box = decode_step g n t box"
      using True "1.prems" by (intro decode_step_shift) simp_all
    have "decode_loop (4 * g + r) (n + 1) (t + 1) (decode_step g n t box) =
          decode_step (4 * g + r) (n + 1) n (decode_loop g n (t + 1) (decode_step g n t box))"
      using True "1.prems" by (intro "1.IH") simp_all
    moreover have "decode_loop (4 * g + r) (n + 1) t box =
        decode_loop (4 * g + r) (n + 1) (t + 1) (decode_step g n t box)"
      using True by (subst decode_loop.simps) (simp add: s)
    moreover have "decode_loop g n t box = decode_loop g n (t + 1) (decode_step g n t box)"
      using True by (subst decode_loop.simps) simp
    ultimately show ?thesis by (simp only:)
  next
    case False
    then have t: "t = n" using "1.prems" by simp
    have "decode_loop g n n box = box" by (subst decode_loop.simps) simp
    moreover have "decode_loop (4 * g + r) (n + 1) n box =
        decode_loop (4 * g + r) (n + 1) (n + 1) (decode_step (4 * g + r) (n + 1) n box)"
      by (subst decode_loop.simps) simp
    moreover have "decode_loop (4 * g + r) (n + 1) (n + 1) b = b" for b
      by (subst decode_loop.simps) simp
    ultimately show ?thesis by (simp add: t)
  qed
qed

lemma encode_step2:
  assumes "cellbox n box" "n \<le> 26" "0 \<le> g" "g < 2 ^ 51"
  shows "encode_step la lo (encode_step la lo (encoded n g box)) =
         encoded (Suc n) (4 * g + quadrant la lo box) (halve (quadrant la lo box) box)"
proof -
  obtain minLat minLng maxLat maxLng where box: "box = (minLat, minLng, maxLat, maxLng)"
    by (cases box) auto
  from assms(1) have gr: "grid n minLat" "grid n minLng" "grid n maxLat" "grid n maxLng"
    by (simp_all add: cellbox_def box)
  note mla = grid_mid(1) [OF gr(3) gr(1) assms(2)]
  note mlo = grid_mid(1) [OF gr(4) gr(2) assms(2)]
  have w: "wrap64 (g * 2) = g * 2" "wrap64 (g * 2 + 1) = g * 2 + 1"
    "wrap64 (g * 2 * 2) = g * 4" "wrap64 (g * 4 + 1) = g * 4 + 1"
    "wrap64 ((g * 2 + 1) * 2) = g * 4 + 2" "wrap64 (g * 4 + 2 + 1) = g * 4 + 3"
    using assms(3,4) by (simp_all add: wrap64_id)
  have par: "(2 * int n) mod 2 = 0" "(2 * int n + 1) mod 2 \<noteq> 0" by presburger+
  have s1: "encode_step la lo (2 * int n, maxLat, minLat, maxLng, minLng, g) =
    (if float64_gt lo (Finite ((maxLng + minLng) / 2))
     then (2 * int n + 1, maxLat, minLat, maxLng, (maxLng + minLng) / 2, g * 2 + 1)
     else (2 * int n + 1, maxLat, minLat, (maxLng + minLng) / 2, minLng, g * 2))"
    by (simp add: Let_def mlo w par)
  have s2: "encode_step la lo (2 * int n + 1, maxLat, minLat, a, b, k) =
    (if float64_gt la (Finite ((maxLat + minLat) / 2))
     then (2 * int n + 1 + 1, maxLat, (maxLat + minLat) / 2, a, b, wrap64 (wrap64 (k * 2) + 1))
     else (2 * int n + 1 + 1, (maxLat + minLat) / 2, minLat, a, b, wrap64 (k * 2)))" for a b k
    using par(2) by (simp add: Let_def mla)
  show ?thesis
    unfolding box encoded.simps s1
    using assms(3,4) by (simp add: s2 wrap64_id del: encode_step.simps)
qed

section \<open>The loop of the encoder\<close>

declare encode_loop.simps [simp del]

lemma encode_step_bitsTotal: "bitsTotal_of (encode_step la lo s) = bitsTotal_of s + 1"
  by (cases s rule: prod_cases6) (simp add: Let_def)

lemma encode_loop_extend:
  "bitsTotal_of s \<le> k \<Longrightarrow>
     encode_loop la lo (k + 1) s = encode_step la lo (encode_loop la lo k s)"
proof (induction la lo k s rule: encode_loop.induct)
  case (1 la lo k s)
  show ?case
  proof (cases "bitsTotal_of s < k")
    case True
    have "encode_loop la lo (k + 1) (encode_step la lo s) =
          encode_step la lo (encode_loop la lo k (encode_step la lo s))"
      using True by (intro "1.IH") (simp_all add: encode_step_bitsTotal)
    moreover have "encode_loop la lo (k + 1) s = encode_loop la lo (k + 1) (encode_step la lo s)"
      using True by (subst encode_loop.simps) simp
    moreover have "encode_loop la lo k s = encode_loop la lo k (encode_step la lo s)"
      using True by (subst encode_loop.simps) simp
    ultimately show ?thesis by (simp only:)
  next
    case False
    then have k: "bitsTotal_of s = k" using "1.prems" by simp
    have "encode_loop la lo k s = s"
      using k by (subst encode_loop.simps) simp
    moreover have "encode_loop la lo (k + 1) s = encode_loop la lo (k + 1) (encode_step la lo s)"
      using k by (subst encode_loop.simps) simp
    moreover have "encode_loop la lo (k + 1) (encode_step la lo s) = encode_step la lo s"
      using k by (subst encode_loop.simps) (simp add: encode_step_bitsTotal)
    ultimately show ?thesis by (simp only:)
  qed
qed

lemma encode_loop_extend2:
  assumes "bitsTotal_of s \<le> k"
  shows "encode_loop la lo (k + 2) s = encode_step la lo (encode_step la lo (encode_loop la lo k s))"
proof -
  have "encode_loop la lo (k + 1 + 1) s = encode_step la lo (encode_loop la lo (k + 1) s)"
    using assms by (intro encode_loop_extend) simp
  also have "encode_loop la lo (k + 1) s = encode_step la lo (encode_loop la lo k s)"
    using assms by (rule encode_loop_extend)
  finally show ?thesis by (simp add: add.assoc)
qed

lemma encode_loop_0: "encode_loop la lo 0 encode_init = encoded 0 0 decode_init"
  by (subst encode_loop.simps) (simp add: encode_init_def decode_init_def)

lemma decode_loop_0: "decode_loop g 0 0 box = box"
  by (subst decode_loop.simps) simp

lemma pow4_le: "n \<le> 25 \<Longrightarrow> (4::int) ^ n \<le> 2 ^ 50"
proof -
  assume "n \<le> 25"
  then have "(4::int) ^ n \<le> 4 ^ 25" by (intro power_increasing) simp_all
  then show ?thesis by simp
qed

lemma covers_halve:
  assumes "covers la lo box"
  shows "covers la lo (halve (quadrant la lo box) box)"
proof -
  obtain minLat minLng maxLat maxLng where box: "box = (minLat, minLng, maxLat, maxLng)"
    by (cases box) auto
  from assms obtain a b where f: "la = Finite a" "lo = Finite b"
    by (cases la; cases lo) (simp_all add: box)
  from assms show ?thesis
    unfolding box f by (simp add: field_simps)
qed

lemma encode_loop_encoded:
  "n \<le> 26 \<Longrightarrow>
     \<exists>g box. encode_loop la lo (2 * int n) encode_init = encoded n g box \<and>
       cellbox n box \<and> 0 \<le> g \<and> g < 4 ^ n \<and>
       decode_loop g (int n) 0 decode_init = box \<and>
       (covers la lo decode_init \<longrightarrow> covers la lo box)"
proof (induction n)
  case 0
  show ?case
    by (intro exI [of _ 0] exI [of _ decode_init])
      (simp add: encode_loop_0 decode_loop_0 cellbox_init)
next
  case (Suc n)
  then have n: "n \<le> 25" by simp
  with Suc.IH obtain g box where
    e: "encode_loop la lo (2 * int n) encode_init = encoded n g box"
    and c: "cellbox n box" and g: "0 \<le> g" "g < 4 ^ n"
    and d: "decode_loop g (int n) 0 decode_init = box"
    and w: "covers la lo decode_init \<longrightarrow> covers la lo box"
    by auto
  define q where "q = quadrant la lo box"
  have q: "0 \<le> q" "q < 4" by (simp_all add: q_def quadrant_range)
  have g51: "g < 2 ^ 51" using g(2) pow4_le [OF n] by simp
  have n26: "n \<le> 26" using n by simp
  have "encode_loop la lo (2 * int n + 2) encode_init =
      encode_step la lo (encode_step la lo (encode_loop la lo (2 * int n) encode_init))"
    by (intro encode_loop_extend2) (simp add: encode_init_def)
  also have "\<dots> = encoded (Suc n) (4 * g + q) (halve q box)"
    unfolding e q_def by (rule encode_step2 [OF c n26 g(1) g51])
  finally have 1: "encode_loop la lo (2 * int (Suc n)) encode_init =
      encoded (Suc n) (4 * g + q) (halve q box)"
    by (simp add: algebra_simps)
  have 2: "cellbox (Suc n) (halve q box)" by (rule halve_cellbox [OF c n26])
  have 3: "0 \<le> 4 * g + q" "4 * g + q < 4 ^ Suc n" using g q by simp_all
  have "decode_loop (4 * g + q) (int n + 1) 0 decode_init =
      decode_step (4 * g + q) (int n + 1) (int n) (decode_loop g (int n) 0 decode_init)"
    using g(1) g51 q n by (intro decode_loop_split) simp_all
  also have "\<dots> = halve q box"
    unfolding d by (rule decode_step_last [OF c n26 g(1) g51 q])
  finally have 4: "decode_loop (4 * g + q) (int (Suc n)) 0 decode_init = halve q box"
    by (simp add: add.commute)
  have 5: "covers la lo decode_init \<longrightarrow> covers la lo (halve q box)"
    using w covers_halve [of la lo box] by (simp add: q_def)
  from 1 2 3 4 5 show ?case by blast
qed

lemma encoded_bitsTotal: "bitsTotal_of (encoded n g box) = 2 * int n"
  by (cases box) simp

lemma encoded_hash: "geohash_of (encoded n g box) = g"
  by (cases box) simp

lemma inside_halve:
  assumes "0 \<le> r" "r < 4" "inside la lo (halve r box)"
    and "cellbox n box"
  shows "inside la lo box" "quadrant (Finite la) (Finite lo) box = r"
proof -
  obtain minLat minLng maxLat maxLng where box: "box = (minLat, minLng, maxLat, maxLng)"
    by (cases box) auto
  have w: "maxLat - minLat = 180 / 2 ^ n" "maxLng - minLng = 360 / 2 ^ n"
    using assms(4) by (simp_all add: cellbox_def box)
  have "(0::rat) < 180 / 2 ^ n" "(0::rat) < 360 / 2 ^ n" by simp_all
  with w have lt: "minLat < maxLat" "minLng < maxLng" by linarith+
  have r: "r = 0 \<or> r = 1 \<or> r = 2 \<or> r = 3" using assms(1,2) by arith
  from r assms(3) lt show "inside la lo box"
    unfolding box by (auto simp: field_simps)
  from r assms(3) lt show "quadrant (Finite la) (Finite lo) box = r"
    unfolding box by (auto simp: field_simps)
qed

lemma encode_of_inside:
  "n \<le> 26 \<Longrightarrow> 0 \<le> h \<Longrightarrow> h < 4 ^ n \<Longrightarrow>
     inside la lo (decode_loop h (int n) 0 decode_init) \<Longrightarrow>
     encode_loop (Finite la) (Finite lo) (2 * int n) encode_init =
     encoded n h (decode_loop h (int n) 0 decode_init)"
proof (induction n arbitrary: h)
  case 0
  then have "h = 0" by simp
  then show ?case by (simp add: encode_loop_0 decode_loop_0)
next
  case (Suc n)
  then have n: "n \<le> 25" by simp
  then have n26: "n \<le> 26" by simp
  define g where "g = h div 4"
  define r where "r = h mod 4"
  have h: "h = 4 * g + r" by (simp add: g_def r_def)
  have r: "0 \<le> r" "r < 4" by (simp_all add: r_def)
  have g: "0 \<le> g" "g < 4 ^ n" using Suc.prems(2,3) by (simp_all add: g_def)
  have g51: "g < 2 ^ 51" using g(2) pow4_le [OF n] by simp
  define box where "box = decode_loop g (int n) 0 decode_init"
  have "cellbox (0 + nat (int n - 0)) (decode_loop g (int n) 0 decode_init)"
    using n by (intro decode_loop_cellbox cellbox_init) simp_all
  then have c: "cellbox n box" by (simp add: box_def)
  have "decode_loop (4 * g + r) (int n + 1) 0 decode_init =
      decode_step (4 * g + r) (int n + 1) (int n) (decode_loop g (int n) 0 decode_init)"
    using g(1) g51 r n by (intro decode_loop_split) simp_all
  also have "\<dots> = halve r box"
    unfolding box_def [symmetric] by (rule decode_step_last [OF c n26 g(1) g51 r])
  finally have d: "decode_loop h (int (Suc n)) 0 decode_init = halve r box"
    by (simp add: h add.commute)
  have i: "inside la lo (halve r box)" using Suc.prems(4) by (simp only: d)
  note ih = inside_halve [OF r i c]
  have e: "encode_loop (Finite la) (Finite lo) (2 * int n) encode_init = encoded n g box"
    unfolding box_def using n26 g ih(1) by (intro Suc.IH) (simp_all add: box_def)
  have "encode_loop (Finite la) (Finite lo) (2 * int n + 2) encode_init =
      encode_step (Finite la) (Finite lo) (encode_step (Finite la) (Finite lo)
        (encode_loop (Finite la) (Finite lo) (2 * int n) encode_init))"
    by (intro encode_loop_extend2) (simp add: encode_init_def)
  also have "\<dots> = encoded (Suc n) (4 * g + quadrant (Finite la) (Finite lo) box)
      (halve (quadrant (Finite la) (Finite lo) box) box)"
    unfolding e by (rule encode_step2 [OF c n26 g(1) g51])
  also have "\<dots> = encoded (Suc n) h (halve r box)"
    by (simp only: ih(2) h)
  finally have "encode_loop (Finite la) (Finite lo) (2 * int n + 2) encode_init =
      encoded (Suc n) h (halve r box)" .
  moreover have "2 * int (Suc n) = 2 * int n + 2" by simp
  ultimately show ?case by (simp only: d)
qed

section \<open>The claims about encoding\<close>

lemma valid_depth_half:
  assumes "0 < d" "d \<le> 52" "even d"
  shows "d = 2 * int (nat (d div 2))" "nat (d div 2) \<le> 26" "(2::int) ^ nat d = 4 ^ nat (d div 2)"
proof -
  show 1: "d = 2 * int (nat (d div 2))" using assms by auto
  show "nat (d div 2) \<le> 26" using assms by simp
  have "nat d = 2 * nat (d div 2)" using 1 by linarith
  then have "(2::int) ^ nat d = 2 ^ (2 * nat (d div 2))" by simp
  also have "\<dots> = 4 ^ nat (d div 2)" by (simp add: power_mult)
  finally show "(2::int) ^ nat d = 4 ^ nat (d div 2)" .
qed

lemma EncodeInt_encoded:
  assumes "0 < d" "d \<le> 52" "even d"
  shows "\<exists>g box. EncodeInt la lo d = Inr g \<and>
    encode_loop la lo d encode_init = encoded (nat (d div 2)) g box \<and>
    0 \<le> g \<and> g < 2 ^ nat d \<and> DecodeBboxInt g d = Inr box \<and>
    cellbox (nat (d div 2)) box \<and> (covers la lo decode_init \<longrightarrow> covers la lo box)"
proof -
  define n where "n = nat (d div 2)"
  note v = valid_depth_half [OF assms, folded n_def]
  from encode_loop_encoded [OF v(2), of la lo] obtain g box where
    e: "encode_loop la lo (2 * int n) encode_init = encoded n g box"
    and c: "cellbox n box" and g: "0 \<le> g" "g < 4 ^ n"
    and dl: "decode_loop g (int n) 0 decode_init = box"
    and w: "covers la lo decode_init \<longrightarrow> covers la lo box"
    by blast
  have e': "encode_loop la lo d encode_init = encoded n g box"
    using e v(1) by simp
  have dn: "d div 2 = int n" using v(1) by simp
  have 1: "EncodeInt la lo d = Inr g"
    by (simp add: EncodeInt_def validateBitDepth_ok [OF assms] e' encoded_hash)
  have 2: "DecodeBboxInt g d = Inr box"
    by (simp add: DecodeBboxInt_def validateBitDepth_ok [OF assms] dn dl)
  have 3: "g < 2 ^ nat d" using g(2) v(3) by simp
  from 1 e' g(1) 3 2 c w show ?thesis unfolding n_def [symmetric] by blast
qed

text \<open>
  C6. For every valid bit depth and every pair of coordinates, finite ones outside the
  domain, infinities and NaN included, the loop of \<open>EncodeInt\<close> ends with its counter
  \<open>bitsTotal\<close> at the bit depth, that is after that many iterations, and the hash it
  returns lies between 0 and \<open>2 ^ bitDepth - 1\<close>.
\<close>

theorem EncodeInt_range:
  assumes "0 < bitDepth" "bitDepth \<le> 52" "even bitDepth"
  shows "\<exists>geohash. EncodeInt latitude longitude bitDepth = Inr geohash \<and>
    0 \<le> geohash \<and> geohash \<le> 2 ^ nat bitDepth - 1 \<and>
    bitsTotal_of (encode_loop latitude longitude bitDepth encode_init) = bitDepth"
proof -
  from EncodeInt_encoded [OF assms, of latitude longitude] obtain g box where
    1: "EncodeInt latitude longitude bitDepth = Inr g"
    and 2: "encode_loop latitude longitude bitDepth encode_init =
      encoded (nat (bitDepth div 2)) g box"
    and 3: "0 \<le> g" "g < 2 ^ nat bitDepth"
    by blast
  have "bitsTotal_of (encode_loop latitude longitude bitDepth encode_init) = bitDepth"
    using valid_depth_half(1) [OF assms] by (simp add: 2 encoded_bitsTotal)
  with 1 3 show ?thesis by auto
qed

theorem EncodeInt_range_witness:
  "(0::int) < 4 \<and> (4::int) \<le> 52 \<and> even (4::int) \<and>
   (\<exists>geohash. EncodeInt (Finite 1000) NaN 4 = Inr geohash \<and>
    0 \<le> geohash \<and> geohash \<le> 2 ^ nat 4 - 1 \<and>
    bitsTotal_of (encode_loop (Finite 1000) NaN 4 encode_init) = 4)"
  using EncodeInt_range [of 4 "Finite 1000" NaN] by simp

text \<open>
  C1. For every latitude in \<open>[-90, 90]\<close>, every longitude in \<open>[-180, 180]\<close> and every
  valid bit depth, decoding the hash that \<open>EncodeInt\<close> returns, at the same bit depth,
  gives a centre and error terms with \<open>\<bar>latitude - lat\<bar> \<le> latErr\<close> and
  \<open>\<bar>longitude - lng\<bar> \<le> lngErr\<close>.
\<close>

theorem encode_decode_bound:
  assumes "0 < bitDepth" "bitDepth \<le> 52" "even bitDepth"
    and "- 90 \<le> latitude" "latitude \<le> 90" "- 180 \<le> longitude" "longitude \<le> 180"
  shows "\<exists>geohash lat lng latErr lngErr.
    EncodeInt (Finite latitude) (Finite longitude) bitDepth = Inr geohash \<and>
    DecodeInt geohash bitDepth = Inr (lat, lng, latErr, lngErr) \<and>
    \<bar>latitude - lat\<bar> \<le> latErr \<and> \<bar>longitude - lng\<bar> \<le> lngErr"
proof -
  define n where "n = nat (bitDepth div 2)"
  have dom: "covers (Finite latitude) (Finite longitude) decode_init"
    using assms(4-7) by (simp add: decode_init_def)
  from EncodeInt_encoded [OF assms(1-3), of "Finite latitude" "Finite longitude"] dom
  obtain g box where
    1: "EncodeInt (Finite latitude) (Finite longitude) bitDepth = Inr g"
    and 2: "DecodeBboxInt g bitDepth = Inr box"
    and c: "cellbox n box"
    and w: "covers (Finite latitude) (Finite longitude) box"
    unfolding n_def by blast
  obtain minLat minLng maxLat maxLng where box: "box = (minLat, minLng, maxLat, maxLng)"
    by (cases box) auto
  have wd: "maxLat - minLat = 180 / 2 ^ n" "maxLng - minLng = 360 / 2 ^ n"
    using c by (simp_all add: cellbox_def box)
  have 3: "DecodeInt g bitDepth =
      Inr ((minLat + maxLat) / 2, (minLng + maxLng) / 2, 90 / 2 ^ n, 180 / 2 ^ n)"
    unfolding n_def by (rule DecodeInt_of_box [OF assms(1-3) 2 [unfolded box]])
  have e: "(90::rat) / 2 ^ n = (maxLat - minLat) / 2" "(180::rat) / 2 ^ n = (maxLng - minLng) / 2"
    by (simp_all add: wd)
  from w have p: "minLat \<le> latitude" "latitude \<le> maxLat" "minLng \<le> longitude" "longitude \<le> maxLng"
    by (simp_all add: box)
  have "\<bar>latitude - (minLat + maxLat) / 2\<bar> \<le> 90 / 2 ^ n"
    unfolding e using p by (simp add: abs_le_iff field_simps)
  moreover have "\<bar>longitude - (minLng + maxLng) / 2\<bar> \<le> 180 / 2 ^ n"
    unfolding e using p by (simp add: abs_le_iff field_simps)
  ultimately show ?thesis using 1 3 by blast
qed

theorem encode_decode_bound_witness:
  "(0::int) < 52 \<and> (52::int) \<le> 52 \<and> even (52::int) \<and>
   - 90 \<le> (90::rat) \<and> (90::rat) \<le> 90 \<and> - 180 \<le> (- 180::rat) \<and> (- 180::rat) \<le> 180 \<and>
   (\<exists>geohash lat lng latErr lngErr.
    EncodeInt (Finite 90) (Finite (- 180)) 52 = Inr geohash \<and>
    DecodeInt geohash 52 = Inr (lat, lng, latErr, lngErr) \<and>
    \<bar>90 - lat\<bar> \<le> latErr \<and> \<bar>- 180 - lng\<bar> \<le> lngErr)"
  using encode_decode_bound [of 52 90 "- 180"] by simp

text \<open>
  C9. For every valid bit depth \<open>d\<close> and every hash \<open>h\<close> with \<open>0 \<le> h < 2 ^ d\<close>,
  encoding the centre that \<open>DecodeInt\<close> returns for \<open>h\<close>, at the same bit depth, gives
  \<open>h\<close> back.
\<close>

theorem decode_encode_identity:
  assumes "0 < d" "d \<le> 52" "even d" "0 \<le> h" "h < 2 ^ nat d"
  shows "\<exists>lat lng latErr lngErr.
    DecodeInt h d = Inr (lat, lng, latErr, lngErr) \<and>
    EncodeInt (Finite lat) (Finite lng) d = Inr h"
proof -
  define n where "n = nat (d div 2)"
  note v = valid_depth_half [OF assms(1-3), folded n_def]
  have dn: "d div 2 = int n" using v(1) by simp
  define box where "box = decode_loop h (int n) 0 decode_init"
  obtain minLat minLng maxLat maxLng where b: "box = (minLat, minLng, maxLat, maxLng)"
    by (cases box) auto
  have 1: "DecodeBboxInt h d = Inr (minLat, minLng, maxLat, maxLng)"
    by (simp add: DecodeBboxInt_def validateBitDepth_ok [OF assms(1-3)] dn box_def [symmetric] b)
  from DecodeBboxInt_cellbox [OF assms(1-3), of h] 1
  have c: "cellbox n (minLat, minLng, maxLat, maxLng)" by (simp add: n_def)
  then have w: "maxLat - minLat = 180 / 2 ^ n" "maxLng - minLng = 360 / 2 ^ n"
    by (simp_all add: cellbox_def)
  have "(0::rat) < 180 / 2 ^ n" "(0::rat) < 360 / 2 ^ n" by simp_all
  with w have lt: "minLat < maxLat" "minLng < maxLng" by linarith+
  define lat where "lat = (minLat + maxLat) / 2"
  define lng where "lng = (minLng + maxLng) / 2"
  have 2: "DecodeInt h d = Inr (lat, lng, 90 / 2 ^ n, 180 / 2 ^ n)"
    unfolding n_def lat_def lng_def by (rule DecodeInt_of_box [OF assms(1-3) 1])
  have "inside lat lng box"
    using lt by (simp add: b lat_def lng_def)
  then have i: "inside lat lng (decode_loop h (int n) 0 decode_init)"
    by (simp only: box_def)
  have h4: "h < 4 ^ n" using assms(5) v(3) by simp
  have "encode_loop (Finite lat) (Finite lng) (2 * int n) encode_init = encoded n h box"
    unfolding box_def by (rule encode_of_inside [OF v(2) assms(4) h4 i])
  then have "encode_loop (Finite lat) (Finite lng) d encode_init = encoded n h box"
    using v(1) by simp
  then have "EncodeInt (Finite lat) (Finite lng) d = Inr h"
    by (simp add: EncodeInt_def validateBitDepth_ok [OF assms(1-3)] encoded_hash)
  with 2 show ?thesis by blast
qed

theorem decode_encode_identity_witness:
  "(0::int) < 32 \<and> (32::int) \<le> 52 \<and> even (32::int) \<and> (0::int) \<le> 1702789509 \<and>
   (1702789509::int) < 2 ^ nat 32 \<and>
   (\<exists>lat lng latErr lngErr.
    DecodeInt 1702789509 32 = Inr (lat, lng, latErr, lngErr) \<and>
    EncodeInt (Finite lat) (Finite lng) 32 = Inr 1702789509)"
  using decode_encode_identity [of 32 1702789509] by simp

end
